theory Spec2Isabelle
  imports Main "HOL-Library.Sublist"
begin

section \<open>Python strings\<close>

text \<open>
  A Python \<open>str\<close> is modelled as a \<open>string\<close> holding its UTF-8 encoding. The operations
  the agent uses are \<open>startswith\<close> (the library's \<open>prefix\<close>), the substring test
  \<open>sep in s\<close> (the library's \<open>sublist\<close>), \<open>split\<close>, \<open>rstrip\<close>, \<open>join\<close> and \<open>str\<close> of an
  integer.
\<close>

text \<open>\<open>s.partition(sep)\<close> for a separator that occurs: the text before the first
  occurrence and the text after it. \<open>None\<close> when the separator does not occur.\<close>

fun partition_first :: "string \<Rightarrow> string \<Rightarrow> (string \<times> string) option" where
  "partition_first sep [] = None"
| "partition_first sep (c # cs) =
     (if prefix sep (c # cs) then Some ([], drop (length sep) (c # cs))
      else (case partition_first sep cs of
              None \<Rightarrow> None
            | Some (b, a) \<Rightarrow> Some (c # b, a)))"

text \<open>\<open>s.split(sep, maxsplit)\<close> for a non-empty separator: at most \<open>maxsplit\<close> cuts, at
  the leftmost non-overlapping occurrences. (Python raises on an empty separator; every
  separator of the agent is a non-empty constant.)\<close>

fun split_max :: "string \<Rightarrow> nat \<Rightarrow> string \<Rightarrow> string list" where
  "split_max sep 0 s = [s]"
| "split_max sep (Suc n) s =
     (case partition_first sep s of
        None \<Rightarrow> [s]
      | Some (b, a) \<Rightarrow> b # split_max sep n a)"

text \<open>\<open>s.split(sep)\<close> without a limit: a string has fewer occurrences of a non-empty
  separator than characters, so \<open>length s\<close> cuts are never exhausted.\<close>

definition split_all :: "string \<Rightarrow> string \<Rightarrow> string list" where
  "split_all sep s = split_max sep (length s) s"

text \<open>The code points for which \<open>str.isspace\<close> holds, each as its UTF-8 bytes; these are
  what \<open>rstrip()\<close> without an argument removes.\<close>

definition whitespace :: "string list" where
  "whitespace =
     [[CHR 0x09], [CHR 0x0A], [CHR 0x0B], [CHR 0x0C], [CHR 0x0D],
      [CHR 0x1C], [CHR 0x1D], [CHR 0x1E], [CHR 0x1F], [CHR 0x20],
      [CHR 0xC2, CHR 0x85], [CHR 0xC2, CHR 0xA0],
      [CHR 0xE1, CHR 0x9A, CHR 0x80],
      [CHR 0xE2, CHR 0x80, CHR 0x80], [CHR 0xE2, CHR 0x80, CHR 0x81],
      [CHR 0xE2, CHR 0x80, CHR 0x82], [CHR 0xE2, CHR 0x80, CHR 0x83],
      [CHR 0xE2, CHR 0x80, CHR 0x84], [CHR 0xE2, CHR 0x80, CHR 0x85],
      [CHR 0xE2, CHR 0x80, CHR 0x86], [CHR 0xE2, CHR 0x80, CHR 0x87],
      [CHR 0xE2, CHR 0x80, CHR 0x88], [CHR 0xE2, CHR 0x80, CHR 0x89],
      [CHR 0xE2, CHR 0x80, CHR 0x8A],
      [CHR 0xE2, CHR 0x80, CHR 0xA8], [CHR 0xE2, CHR 0x80, CHR 0xA9],
      [CHR 0xE2, CHR 0x80, CHR 0xAF], [CHR 0xE2, CHR 0x81, CHR 0x9F],
      [CHR 0xE3, CHR 0x80, CHR 0x80]]"

text \<open>\<open>rstrip\<close> works on the reversed string: \<open>lstrip_rev\<close> removes leading reversed
  whitespace code points, one per call.\<close>

definition strip_one :: "string \<Rightarrow> string option" where
  "strip_one r =
     (case find (\<lambda>w. prefix (rev w) r) whitespace of
        None \<Rightarrow> None
      | Some w \<Rightarrow> Some (drop (length w) r))"

function lstrip_rev :: "string \<Rightarrow> string" where
  "lstrip_rev r = (case strip_one r of None \<Rightarrow> r | Some r' \<Rightarrow> lstrip_rev r')"
  by pat_completeness auto
termination
proof (relation "measure length")
  show "wf (measure length)" by simp
next
  fix r r' :: string
  assume "strip_one r = Some r'"
  then obtain w where w: "find (\<lambda>w. prefix (rev w) r) whitespace = Some w"
    and r': "r' = drop (length w) r"
    by (auto simp: strip_one_def split: option.splits)
  from w have "w \<in> set whitespace" and p: "prefix (rev w) r"
    by (auto simp: find_Some_iff)
  then have "w \<noteq> []"
    by (auto simp: whitespace_def)
  moreover from p have "length w \<le> length r"
    using prefix_length_le by fastforce
  ultimately show "(r', r) \<in> measure length"
    using r' by (cases w) auto
qed

definition rstrip :: "string \<Rightarrow> string" where
  "rstrip s = rev (lstrip_rev (rev s))"

text \<open>\<open>sep.join(xs)\<close>.\<close>

fun join :: "string \<Rightarrow> string list \<Rightarrow> string" where
  "join sep [] = []"
| "join sep [x] = x"
| "join sep (x # y # ys) = x @ sep @ join sep (y # ys)"

text \<open>\<open>str(n)\<close> for an integer: decimal digits, with a minus sign when negative.\<close>

fun str_nat :: "nat \<Rightarrow> string" where
  "str_nat n =
     (if n < 10 then [char_of (48 + n)]
      else str_nat (n div 10) @ [char_of (48 + n mod 10)])"

definition str_int :: "int \<Rightarrow> string" where
  "str_int i = (if i < 0 then CHR ''-'' # str_nat (nat (- i)) else str_nat (nat i))"

section \<open>Data model\<close>

datatype MessageRole = SYSTEM | USER | ASSISTANT | TOOL

text \<open>The arguments of a requested action: a dictionary from parameter names to values
  (a value is modelled by the text that formatting it produces).\<close>

type_synonym arguments = "(string \<times> string) list"

text \<open>One requested action of an assistant turn: the dictionary with the keys
  \<open>id\<close>, \<open>name\<close> and \<open>arguments\<close>.\<close>

record tool_call =
  tc_id :: string
  tc_name :: string
  tc_arguments :: arguments

record Message =
  role :: MessageRole
  content :: string
  tool_calls :: "tool_call list"
  tool_call_id :: "string option"
  name :: "string option"

text \<open>\<open>Message(role=r, content=c)\<close> with the defaults of the other fields.\<close>

definition mk_message :: "MessageRole \<Rightarrow> string \<Rightarrow> Message" where
  "mk_message r c =
     \<lparr>role = r, content = c, tool_calls = [], tool_call_id = None, name = None\<rparr>"

text \<open>A trajectory sample. The wall-clock \<open>timestamp\<close> of the source is real time and is
  left out, as is \<open>wall_time_seconds\<close> below.\<close>

record StepSnapshot =
  step :: nat
  message_count :: nat
  total_tokens :: nat
  compressions_so_far :: nat

text \<open>\<open>AgentMetrics\<close>; the counter \<open>tool_calls\<close> of the source is \<open>n_tool_calls\<close> here
  (the name is taken by the field of \<open>Message\<close>).\<close>

record AgentMetrics =
  total_input_tokens :: nat
  total_output_tokens :: nat
  llm_calls :: nat
  n_tool_calls :: nat
  compressions :: nat
  messages_dropped :: nat
  trajectory :: "StepSnapshot list"

text \<open>\<open>ToolResult\<close>; the field \<open>output\<close> of the source is \<open>output_str\<close> here.\<close>

record ToolResult =
  success :: bool
  output_str :: string
  error :: "string option"
  is_compression :: bool

record FocusState =
  description :: string
  goal :: string
  start_message_index :: nat

record KnowledgeEntry =
  focus_description :: string
  focus_goal :: string
  outcome :: string
  learnings :: string

text \<open>The dictionary returned by \<open>parse_focus_complete\<close>.\<close>

record focus_data =
  fd_outcome :: string
  fd_learnings :: string
  fd_next_action :: string

text \<open>The mutable state of a \<open>FocusAgent\<close>: the conversation buffer, the metrics, the
  focus stack (a Python list, top at the end) and the knowledge ledger.\<close>

record agent =
  messages :: "Message list"
  metrics :: AgentMetrics
  focus_stack :: "FocusState list"
  knowledge :: "KnowledgeEntry list"

definition add_message :: "Message \<Rightarrow> agent \<Rightarrow> agent" where
  "add_message m s = s\<lparr>messages := messages s @ [m]\<rparr>"

section \<open>The focus-control tools and their tagged strings\<close>

definition StartFocusTool_output :: "string \<Rightarrow> string \<Rightarrow> string" where
  "StartFocusTool_output d g = ''FOCUS_START::'' @ d @ ''::'' @ g"

definition CompleteFocusTool_output :: "string \<Rightarrow> string \<Rightarrow> string \<Rightarrow> string" where
  "CompleteFocusTool_output oc l na =
     ''FOCUS_COMPLETE::'' @ oc @ ''::'' @ l @ ''::'' @ na"

definition parse_focus_start :: "string \<Rightarrow> (string \<times> string) option" where
  "parse_focus_start out =
     (if prefix ''FOCUS_START::'' out then
        (let parts = split_max ''::'' 2 out in
         if length parts = 3 then Some (parts ! 1, parts ! 2) else None)
      else None)"

definition parse_focus_complete :: "string \<Rightarrow> focus_data option" where
  "parse_focus_complete out =
     (if prefix ''FOCUS_COMPLETE::'' out then
        (let parts = split_max ''::'' 3 out in
         if length parts \<ge> 3 then
           Some \<lparr>fd_outcome = parts ! 1, fd_learnings = parts ! 2,
                 fd_next_action = (if length parts > 3 then parts ! 3 else [])\<rparr>
         else None)
      else None)"

section \<open>The compression engine of \<open>FocusAgent\<close>\<close>

text \<open>\<open>_build_knowledge_section\<close>: the loop over \<open>enumerate(self._knowledge, 1)\<close>. The
  marks of the four outcomes are non-ASCII characters, written as their UTF-8 bytes.\<close>

definition outcome_emoji :: "string \<Rightarrow> string" where
  "outcome_emoji oc =
     (if oc = ''success'' then [CHR 0xE2, CHR 0x9C, CHR 0x93]
      else if oc = ''partial'' then ''~''
      else if oc = ''blocked'' then [CHR 0xE2, CHR 0x9C, CHR 0x97]
      else if oc = ''abandoned'' then [CHR 0xE2, CHR 0x86, CHR 0x92]
      else ''?'')"

fun knowledge_lines :: "nat \<Rightarrow> KnowledgeEntry list \<Rightarrow> string list" where
  "knowledge_lines i [] = []"
| "knowledge_lines i (entry # es) =
     [''### '' @ str_nat i @ ''. ['' @ outcome_emoji (outcome entry) @ ''] ''
        @ focus_description entry,
      ''**Goal:** '' @ focus_goal entry,
      ''**Outcome:** '' @ outcome entry,
      ''**Learnings:** '' @ learnings entry,
      []]
     @ knowledge_lines (Suc i) es"

definition knowledge_header :: string where
  "knowledge_header = ''## KNOWLEDGE (Preserved from previous investigations)'' @ [CHR 0x0A]"

definition build_knowledge_section :: "agent \<Rightarrow> string" where
  "build_knowledge_section s =
     (if knowledge s = [] then []
      else join [CHR 0x0A] (knowledge_header # knowledge_lines 1 (knowledge s)))"

definition knowledge_marker :: string where
  "knowledge_marker = ''## KNOWLEDGE''"

text \<open>\<open>_rebuild_messages_with_knowledge\<close>.\<close>

definition rebuild_messages_with_knowledge :: "agent \<Rightarrow> agent" where
  "rebuild_messages_with_knowledge s =
     (if length (messages s) < 2 then s
      else
        let system_content = content (messages s ! 0);
            system_content =
              (if sublist knowledge_marker system_content
               then rstrip (hd (split_all knowledge_marker system_content))
               else system_content);
            knowledge_section = build_knowledge_section s;
            system_content =
              (if knowledge_section \<noteq> []
               then system_content @ [CHR 0x0A, CHR 0x0A] @ knowledge_section
               else system_content)
        in s\<lparr>messages := (messages s)[0 := mk_message SYSTEM system_content]\<rparr>)"

text \<open>\<open>_handle_start_focus\<close>.\<close>

definition handle_start_focus :: "string \<Rightarrow> string \<Rightarrow> agent \<Rightarrow> agent" where
  "handle_start_focus d g s =
     s\<lparr>focus_stack := focus_stack s @
          [\<lparr>description = d, goal = g, start_message_index = length (messages s)\<rparr>]\<rparr>"

text \<open>\<open>_find_safe_truncation_point\<close>. \<open>safe_scan msgs i\<close> is the loop
  \<open>for i in range(target_index, min_safe - 1, -1)\<close> from index \<open>i\<close> on, with the
  fallback after it.\<close>

abbreviation min_safe :: nat where
  "min_safe \<equiv> 2"

fun safe_scan :: "Message list \<Rightarrow> nat \<Rightarrow> nat" where
  "safe_scan msgs i =
     (if i < min_safe then min_safe
      else if i \<ge> length msgs then safe_scan msgs (i - 1)
      else if role (msgs ! i) = USER then i + 1
      else if role (msgs ! i) = TOOL \<and>
              (i + 1 \<ge> length msgs \<or> role (msgs ! (i + 1)) \<noteq> TOOL) then i + 1
      else safe_scan msgs (i - 1))"

definition find_safe_truncation_point :: "Message list \<Rightarrow> nat \<Rightarrow> nat" where
  "find_safe_truncation_point msgs target_index =
     (if target_index \<le> min_safe then min_safe else safe_scan msgs target_index)"

text \<open>The parts of \<open>_handle_complete_focus\<close>, in the order of the source: the failed
  result for an empty stack, the knowledge entry, the truncation with its counters, the
  post-compression snapshot and the continuation turn.\<close>

definition no_active_focus :: ToolResult where
  "no_active_focus =
     \<lparr>success = False, output_str = [],
      error = Some ''No active focus to complete. Use start_focus first.'',
      is_compression = False\<rparr>"

definition messages_to_drop :: "agent \<Rightarrow> FocusState \<Rightarrow> int" where
  "messages_to_drop s focus =
     int (length (messages s))
       - int (find_safe_truncation_point (messages s) (start_message_index focus))"

definition truncate_to_focus :: "FocusState \<Rightarrow> agent \<Rightarrow> agent" where
  "truncate_to_focus focus s =
     (let safe_point = find_safe_truncation_point (messages s) (start_message_index focus);
          n = messages_to_drop s focus
      in if n > 0 then
           s\<lparr>metrics := (metrics s)
                \<lparr>messages_dropped := messages_dropped (metrics s) + nat n,
                 compressions := compressions (metrics s) + 1\<rparr>,
             messages := take safe_point (messages s)\<rparr>
         else s)"

definition compression_snapshot :: "agent \<Rightarrow> agent" where
  "compression_snapshot s =
     s\<lparr>metrics := (metrics s)\<lparr>trajectory := trajectory (metrics s) @
          [\<lparr>step = llm_calls (metrics s),
            message_count = length (messages s),
            total_tokens = total_input_tokens (metrics s) + total_output_tokens (metrics s),
            compressions_so_far = compressions (metrics s)\<rparr>]\<rparr>\<rparr>"

definition continuation :: "FocusState \<Rightarrow> focus_data \<Rightarrow> string" where
  "continuation focus fd =
     ''Focus completed: '' @ description focus @ [CHR 0x0A, CHR 0x0A]
     @ ''Outcome: '' @ fd_outcome fd @ [CHR 0x0A, CHR 0x0A]
     @ ''Your learnings have been saved to the KNOWLEDGE section above. ''
     @ [CHR 0x0A, CHR 0x0A]
     @ (if fd_next_action fd \<noteq> [] then ''Next: '' @ fd_next_action fd
        else ''What would you like to do next?'')"

definition handle_complete_focus :: "focus_data \<Rightarrow> agent \<Rightarrow> ToolResult \<times> agent" where
  "handle_complete_focus fd s =
     (if focus_stack s = [] then (no_active_focus, s)
      else
        let focus = last (focus_stack s);
            s1 = s\<lparr>focus_stack := butlast (focus_stack s)\<rparr>;
            entry = \<lparr>focus_description = description focus, focus_goal = goal focus,
                     outcome = fd_outcome fd, learnings = fd_learnings fd\<rparr>;
            s2 = s1\<lparr>knowledge := knowledge s1 @ [entry]\<rparr>;
            n = messages_to_drop s2 focus;
            s3 = truncate_to_focus focus s2;
            s4 = rebuild_messages_with_knowledge s3;
            s5 = compression_snapshot s4;
            s6 = add_message (mk_message USER (continuation focus fd)) s5
        in (\<lparr>success = True,
             output_str = ''Focus '' @ [CHR 0x27] @ description focus @ [CHR 0x27]
               @ '' completed. Dropped '' @ str_int n
               @ '' messages. Learnings preserved in KNOWLEDGE section.'',
             error = None, is_compression = True\<rparr>, s6))"

section \<open>The collaborators and the run loop\<close>

text \<open>An exception raised by a collaborator (the inference provider, a tool, or the
  binding of a call's arguments); \<open>run\<close> catches none, so it ends the run.\<close>

datatype exn = ProviderError | TypeError | ToolFault

text \<open>What one inference call yields: the text and requested actions of the assistant
  turn, and the token usage.\<close>

record llm_reply =
  reply_content :: string
  reply_tool_calls :: "tool_call list"
  input_tokens :: nat
  output_tokens :: nat

text \<open>A tool is one of the two focus tools or a tool of the workspace, which is outside
  the agent: its name and what it returns on its arguments. The number is the position
  of the call in the run (the counter \<open>tool_calls\<close>), so that the same call may answer
  differently at different times.\<close>

datatype tool =
    StartFocusTool
  | CompleteFocusTool
  | ExternalTool string "nat \<Rightarrow> arguments \<Rightarrow> exn + ToolResult"

text \<open>The configuration of an agent and its inference provider. The provider sees the
  buffer; the number is the position of the call in the run (the counter \<open>llm_calls\<close>).\<close>

record env =
  max_steps :: nat
  tools :: "tool list"
  llm :: "nat \<Rightarrow> Message list \<Rightarrow> exn + llm_reply"

fun tool_name :: "tool \<Rightarrow> string" where
  "tool_name StartFocusTool = ''start_focus''"
| "tool_name CompleteFocusTool = ''complete_focus''"
| "tool_name (ExternalTool n f) = n"

text \<open>\<open>execute(**arguments)\<close> binds a dictionary to named parameters: every required
  parameter must be a key and every key a parameter, else Python raises \<open>TypeError\<close>.\<close>

definition binds :: "string list \<Rightarrow> string list \<Rightarrow> arguments \<Rightarrow> bool" where
  "binds required optional args =
     (list_all (\<lambda>k. k \<in> set (map fst args)) required
      \<and> list_all (\<lambda>k. k \<in> set (required @ optional)) (map fst args))"

definition kwarg :: "arguments \<Rightarrow> string \<Rightarrow> string" where
  "kwarg args k = (case map_of args k of Some v \<Rightarrow> v | None \<Rightarrow> [])"

definition ok_result :: "string \<Rightarrow> ToolResult" where
  "ok_result out = \<lparr>success = True, output_str = out, error = None, is_compression = False\<rparr>"

definition StartFocusTool_execute :: "arguments \<Rightarrow> exn + ToolResult" where
  "StartFocusTool_execute args =
     (if binds [''description'', ''goal''] [] args
      then Inr (ok_result (StartFocusTool_output (kwarg args ''description'')
                                                 (kwarg args ''goal'')))
      else Inl TypeError)"

definition CompleteFocusTool_execute :: "arguments \<Rightarrow> exn + ToolResult" where
  "CompleteFocusTool_execute args =
     (if binds [''outcome'', ''learnings''] [''next_action''] args
      then Inr (ok_result (CompleteFocusTool_output (kwarg args ''outcome'')
                  (kwarg args ''learnings'') (kwarg args ''next_action'')))
      else Inl TypeError)"

fun tool_execute :: "tool \<Rightarrow> nat \<Rightarrow> arguments \<Rightarrow> exn + ToolResult" where
  "tool_execute StartFocusTool k args = StartFocusTool_execute args"
| "tool_execute CompleteFocusTool k args = CompleteFocusTool_execute args"
| "tool_execute (ExternalTool n f) k args = f k args"

text \<open>\<open>FocusAgent.__init__\<close> appends the focus tools to the given ones;
  \<open>_get_tool_by_name\<close> returns the first tool of that name.\<close>

definition all_tools :: "env \<Rightarrow> tool list" where
  "all_tools E = tools E @ [StartFocusTool, CompleteFocusTool]"

definition get_tool_by_name :: "env \<Rightarrow> string \<Rightarrow> tool option" where
  "get_tool_by_name E nm = find (\<lambda>t. tool_name t = nm) (all_tools E)"

text \<open>\<open>Agent._execute_tool\<close>.\<close>

definition execute_tool :: "env \<Rightarrow> string \<Rightarrow> arguments \<Rightarrow> agent \<Rightarrow> exn + (ToolResult \<times> agent)" where
  "execute_tool E nm args s =
     (case get_tool_by_name E nm of
        None \<Rightarrow>
          Inr (\<lparr>success = False, output_str = [], error = Some (''Unknown tool: '' @ nm),
                is_compression = False\<rparr>, s)
      | Some t \<Rightarrow>
          let s' = s\<lparr>metrics := (metrics s)\<lparr>n_tool_calls := n_tool_calls (metrics s) + 1\<rparr>\<rparr>
          in (case tool_execute t (n_tool_calls (metrics s')) args of
                Inl e \<Rightarrow> Inl e
              | Inr r \<Rightarrow> Inr (r, s')))"

text \<open>\<open>_execute_tool_with_focus\<close>. A tuple of two and a dictionary of three keys are
  always true in a Python condition, so each \<open>if\<close> on a parse result tests for \<open>None\<close>.\<close>

definition focus_started :: "string \<Rightarrow> string \<Rightarrow> ToolResult" where
  "focus_started d g =
     ok_result (''Focus started: '' @ d @ [CHR 0x0A] @ ''Goal: '' @ g @ [CHR 0x0A, CHR 0x0A]
                @ ''Proceeding with investigation...'')"

definition execute_tool_with_focus :: "env \<Rightarrow> tool_call \<Rightarrow> agent \<Rightarrow> exn + (ToolResult \<times> agent)" where
  "execute_tool_with_focus E tc s =
     (case execute_tool E (tc_name tc) (tc_arguments tc) s of
        Inl e \<Rightarrow> Inl e
      | Inr (result, s') \<Rightarrow>
          if success result \<and> output_str result \<noteq> [] then
            (case parse_focus_start (output_str result) of
               Some (d, g) \<Rightarrow> Inr (focus_started d g, handle_start_focus d g s')
             | None \<Rightarrow>
                 (case parse_focus_complete (output_str result) of
                    Some fd \<Rightarrow> Inr (handle_complete_focus fd s')
                  | None \<Rightarrow> Inr (result, s')))
          else Inr (result, s'))"

text \<open>The tool-result turn the loop appends for an ordinary result.\<close>

definition tool_message :: "tool_call \<Rightarrow> ToolResult \<Rightarrow> Message" where
  "tool_message tc result =
     \<lparr>role = TOOL,
      content = (if success result then output_str result
                 else ''Error: '' @ (case error result of Some e \<Rightarrow> e | None \<Rightarrow> ''None'')),
      tool_calls = [], tool_call_id = Some (tc_id tc), name = Some (tc_name tc)\<rparr>"

text \<open>The loop \<open>for tool_call in response.tool_calls\<close>; the boolean is
  \<open>focus_completed\<close>.\<close>

fun process_tool_calls :: "env \<Rightarrow> tool_call list \<Rightarrow> agent \<Rightarrow> exn + (bool \<times> agent)" where
  "process_tool_calls E [] s = Inr (False, s)"
| "process_tool_calls E (tc # tcs) s =
     (case execute_tool_with_focus E tc s of
        Inl e \<Rightarrow> Inl e
      | Inr (result, s') \<Rightarrow>
          if is_compression result then Inr (True, s')
          else process_tool_calls E tcs (add_message (tool_message tc result) s'))"

text \<open>\<open>_call_llm\<close>: counts the call, asks the provider, adds the token usage and wraps
  the reply into an assistant turn.\<close>

definition call_llm :: "env \<Rightarrow> agent \<Rightarrow> exn + (Message \<times> agent)" where
  "call_llm E s =
     (let s1 = s\<lparr>metrics := (metrics s)\<lparr>llm_calls := llm_calls (metrics s) + 1\<rparr>\<rparr>
      in case llm E (llm_calls (metrics s1)) (messages s1) of
           Inl e \<Rightarrow> Inl e
         | Inr rep \<Rightarrow>
             Inr (\<lparr>role = ASSISTANT, content = reply_content rep,
                   tool_calls = reply_tool_calls rep, tool_call_id = None, name = None\<rparr>,
                  s1\<lparr>metrics := (metrics s1)
                     \<lparr>total_input_tokens := total_input_tokens (metrics s1) + input_tokens rep,
                      total_output_tokens :=
                        total_output_tokens (metrics s1) + output_tokens rep\<rparr>\<rparr>))"

text \<open>\<open>_metrics_to_dict\<close> and \<open>TaskResult\<close> (its fields carry the prefix \<open>task_\<close>).\<close>

record metrics_dict =
  md_metrics :: AgentMetrics
  md_message_count :: nat
  md_knowledge_entries :: nat
  md_active_focuses :: nat

record TaskResult =
  task_success :: bool
  task_output :: string
  task_error :: "string option"
  task_metrics :: metrics_dict

definition metrics_to_dict :: "agent \<Rightarrow> metrics_dict" where
  "metrics_to_dict s =
     \<lparr>md_metrics = metrics s, md_message_count = length (messages s),
      md_knowledge_entries = length (knowledge s),
      md_active_focuses = length (focus_stack s)\<rparr>"

definition llm_snapshot :: "nat \<Rightarrow> agent \<Rightarrow> agent" where
  "llm_snapshot i s =
     s\<lparr>metrics := (metrics s)\<lparr>trajectory := trajectory (metrics s) @
          [\<lparr>step = i,
            message_count = length (messages s),
            total_tokens = total_input_tokens (metrics s) + total_output_tokens (metrics s),
            compressions_so_far = compressions (metrics s)\<rparr>]\<rparr>\<rparr>"

definition nudge :: Message where
  "nudge = mk_message USER ''Continue working on the task. Use tools to make progress.''"

text \<open>One iteration of \<open>for step in range(self.max_steps)\<close>: \<open>Some r\<close> when the body
  returns the result \<open>r\<close>, \<open>None\<close> when the loop goes on.\<close>

definition run_step :: "env \<Rightarrow> nat \<Rightarrow> agent \<Rightarrow> exn + (TaskResult option \<times> agent)" where
  "run_step E i s =
     (case call_llm E s of
        Inl e \<Rightarrow> Inl e
      | Inr (response, s1) \<Rightarrow>
          let s2 = llm_snapshot i (add_message response s1) in
          if sublist ''TASK_COMPLETE'' (content response) then
            Inr (Some \<lparr>task_success = True, task_output = content response,
                       task_error = None, task_metrics = metrics_to_dict s2\<rparr>, s2)
          else if tool_calls response \<noteq> [] then
            (case process_tool_calls E (tool_calls response) s2 of
               Inl e \<Rightarrow> Inl e
             | Inr (focus_completed, s3) \<Rightarrow> Inr (None, s3))
          else Inr (None, add_message nudge s2))"

definition max_steps_result :: "agent \<Rightarrow> TaskResult" where
  "max_steps_result s =
     \<lparr>task_success = False, task_output = ''Max steps reached without completing task.'',
      task_error = Some ''max_steps_exceeded'', task_metrics = metrics_to_dict s\<rparr>"

text \<open>The loop from step \<open>i\<close> with \<open>n\<close> iterations left, and the return after it.\<close>

fun run_loop :: "env \<Rightarrow> nat \<Rightarrow> nat \<Rightarrow> agent \<Rightarrow> exn + (TaskResult \<times> agent)" where
  "run_loop E i 0 s = Inr (max_steps_result s, s)"
| "run_loop E i (Suc n) s =
     (case run_step E i s of
        Inl e \<Rightarrow> Inl e
      | Inr (Some r, s') \<Rightarrow> Inr (r, s')
      | Inr (None, s') \<Rightarrow> run_loop E (Suc i) n s')"

definition system_prompt :: "string \<Rightarrow> string" where
  "system_prompt workspace = join [CHR 0x0A]
     [''You are an expert software engineer. Your task is to solve the following problem.'',
      [],
      ''Workspace: '' @ workspace,
      [],
      ''## Tools for Organizing Your Work'',
      [],
      ''You have access to `start_focus` and `complete_focus` tools:'',
      [],
      ''- **start_focus**: Use when beginning a distinct line of investigation or implementation.'',
      ''  This helps you organize your work and enables efficient context management.'',
      ''  '',
      ''- **complete_focus**: Use when you'' @ [CHR 0x27] @ ''ve finished investigating something. This:'',
      ''  - Saves your key learnings to persistent knowledge'',
      ''  - Compresses your detailed work (you keep the learnings)'',
      ''  - Gives you a fresh context for the next focus'',
      [],
      ''Use these especially when:'',
      ''- Exploring unfamiliar parts of the codebase'',
      ''- Trying different approaches that might not work out'',
      ''- Working on multi-step tasks with distinct phases'',
      [],
      ''## Completing the Task'',
      [],
      ''When you'' @ [CHR 0x27] @ ''re done with the entire task, respond with TASK_COMPLETE and a summary of what you did.'',
      []]"

text \<open>\<open>reset\<close> and the two initial turns of \<open>run\<close>.\<close>

definition reset :: agent where
  "reset =
     \<lparr>messages = [],
      metrics = \<lparr>total_input_tokens = 0, total_output_tokens = 0, llm_calls = 0,
                 n_tool_calls = 0, compressions = 0, messages_dropped = 0, trajectory = []\<rparr>,
      focus_stack = [], knowledge = []\<rparr>"

definition initial :: "string \<Rightarrow> string \<Rightarrow> agent" where
  "initial task workspace =
     add_message (mk_message USER task)
       (add_message (mk_message SYSTEM (system_prompt workspace)) reset)"

definition run :: "env \<Rightarrow> string \<Rightarrow> string \<Rightarrow> exn + (TaskResult \<times> agent)" where
  "run E task workspace = run_loop E 0 (max_steps E) (initial task workspace)"

section \<open>The properties of the specification\<close>

text \<open>The tool-pairing invariant: every assistant turn that carries \<open>n > 0\<close> requested
  actions is followed by exactly \<open>n\<close> tool-result turns, which answer those actions in
  order, and the turn after them, if any, is not a tool-result.\<close>

definition group_ok :: "Message list \<Rightarrow> nat \<Rightarrow> bool" where
  "group_ok msgs i =
     (let calls = tool_calls (msgs ! i); n = length calls in
      i + n < length msgs
      \<and> list_all (\<lambda>k. role (msgs ! (i + 1 + k)) = TOOL
                      \<and> tool_call_id (msgs ! (i + 1 + k)) = Some (tc_id (calls ! k))) [0..<n]
      \<and> (i + n + 1 < length msgs \<longrightarrow> role (msgs ! (i + n + 1)) \<noteq> TOOL))"

definition tool_pairing :: "Message list \<Rightarrow> bool" where
  "tool_pairing msgs =
     list_all (\<lambda>i. role (msgs ! i) = ASSISTANT \<and> tool_calls (msgs ! i) \<noteq> []
                    \<longrightarrow> group_ok msgs i) [0..<length msgs]"

text \<open>The documented structure of the buffer: the system turn, then the task.\<close>

definition initial_turns :: "Message list \<Rightarrow> bool" where
  "initial_turns msgs =
     (2 \<le> length msgs \<and> role (msgs ! 0) = SYSTEM \<and> role (msgs ! 1) = USER)"

text \<open>The safe truncation index in the words of the specification. An index is a
  boundary when it is immediately after a user turn, or immediately after a tool-result
  turn that no tool-result follows. The scan goes backward from the candidate index and
  stops at the first boundary; at the protected minimum it stops in any case.\<close>

definition boundary :: "Message list \<Rightarrow> nat \<Rightarrow> bool" where
  "boundary msgs j =
     (0 < j \<and> j \<le> length msgs
      \<and> (role (msgs ! (j - 1)) = USER
         \<or> (role (msgs ! (j - 1)) = TOOL
            \<and> (j \<ge> length msgs \<or> role (msgs ! j) \<noteq> TOOL))))"

fun spec_safe_index :: "Message list \<Rightarrow> nat \<Rightarrow> nat" where
  "spec_safe_index msgs j =
     (if j \<le> min_safe then min_safe
      else if boundary msgs j then j
      else spec_safe_index msgs (j - 1))"

text \<open>The portion of a system turn that precedes the knowledge marker (all of it when
  the marker does not occur).\<close>

definition before_marker :: "string \<Rightarrow> string" where
  "before_marker c = hd (split_all knowledge_marker c)"

text \<open>What holds of the trajectory between the steps of a run: the recorded
  cumulative-compression values never decrease and never exceed the counter, and there
  is one snapshot for each inference call and one for each ledger entry.\<close>

definition traj_inv :: "agent \<Rightarrow> bool" where
  "traj_inv s =
     (sorted (map compressions_so_far (trajectory (metrics s)))
      \<and> list_all (\<lambda>x. compressions_so_far x \<le> compressions (metrics s))
                  (trajectory (metrics s))
      \<and> length (trajectory (metrics s)) = llm_calls (metrics s) + length (knowledge s))"

section \<open>Example buffers and collaborators\<close>

definition sys_turn :: Message where
  "sys_turn = mk_message SYSTEM ''You are an expert software engineer.''"

definition task_turn :: Message where
  "task_turn = mk_message USER ''Fix the failing test.''"

definition request :: "string \<Rightarrow> string \<Rightarrow> arguments \<Rightarrow> Message" where
  "request i nm args =
     \<lparr>role = ASSISTANT, content = [],
      tool_calls = [\<lparr>tc_id = i, tc_name = nm, tc_arguments = args\<rparr>],
      tool_call_id = None, name = None\<rparr>"

definition answer :: "string \<Rightarrow> string \<Rightarrow> string \<Rightarrow> Message" where
  "answer i nm out =
     \<lparr>role = TOOL, content = out, tool_calls = [], tool_call_id = Some i, name = Some nm\<rparr>"

text \<open>The buffer after a step whose only action was \<open>start_focus\<close>: the focus marker is
  anchored at index 3, the place of the tool-result turn.\<close>

definition opened_buffer :: "Message list" where
  "opened_buffer =
     [sys_turn, task_turn,
      request ''t1'' ''start_focus'' [(''description'', ''A''), (''goal'', ''G'')],
      answer ''t1'' ''start_focus'' ''Focus started''] "

definition fresh_metrics :: AgentMetrics where
  "fresh_metrics = metrics reset"

definition focus_A :: "nat \<Rightarrow> FocusState" where
  "focus_A i = \<lparr>description = ''A'', goal = ''G'', start_message_index = i\<rparr>"

definition done_X :: focus_data where
  "done_X = \<lparr>fd_outcome = ''success'', fd_learnings = ''X'', fd_next_action = []\<rparr>"


text \<open>A buffer in which work was done after the focus was opened, and an agent holding
  it with that focus on its stack.\<close>

definition working_buffer :: "Message list" where
  "working_buffer =
     opened_buffer @
     [request ''t2'' ''read_file'' [(''path'', ''a.py'')],
      answer ''t2'' ''read_file'' ''import os'']"

definition working_agent :: agent where
  "working_agent =
     \<lparr>messages = working_buffer, metrics = fresh_metrics,
      focus_stack = [focus_A 3], knowledge = []\<rparr>"

text \<open>The same agent after one focus was completed, and an agent that shares only the
  ledger with it.\<close>

definition entry_A :: KnowledgeEntry where
  "entry_A = \<lparr>focus_description = ''A'', focus_goal = ''G'', outcome = ''success'',
              learnings = ''X''\<rparr>"

definition learned_agent :: agent where
  "learned_agent = working_agent\<lparr>focus_stack := [], knowledge := [entry_A]\<rparr>"

definition other_agent :: agent where
  "other_agent =
     \<lparr>messages = [sys_turn, task_turn], metrics = fresh_metrics,
      focus_stack = [focus_A 2], knowledge = [entry_A]\<rparr>"

text \<open>An agent with no focus open.\<close>

definition idle_agent :: agent where
  "idle_agent = working_agent\<lparr>focus_stack := []\<rparr>"

text \<open>The scenario of the specification as a run: the provider opens focus \<open>A\<close>, asks
  for three workspace actions, one per step, and closes the focus with outcome
  \<open>success\<close> and learnings \<open>X\<close>. The workspace tools always answer.\<close>

definition call_read :: "string \<Rightarrow> string \<Rightarrow> tool_call" where
  "call_read i p = \<lparr>tc_id = i, tc_name = ''read_file'', tc_arguments = [(''path'', p)]\<rparr>"

definition call_tests :: "string \<Rightarrow> tool_call" where
  "call_tests i = \<lparr>tc_id = i, tc_name = ''run_tests'', tc_arguments = []\<rparr>"

definition call_start :: tool_call where
  "call_start =
     \<lparr>tc_id = ''t1'', tc_name = ''start_focus'',
      tc_arguments = [(''description'', ''A''), (''goal'', ''G'')]\<rparr>"

definition call_complete :: tool_call where
  "call_complete =
     \<lparr>tc_id = ''t2'', tc_name = ''complete_focus'',
      tc_arguments = [(''outcome'', ''success''), (''learnings'', ''X'')]\<rparr>"

definition workspace_tools :: "tool list" where
  "workspace_tools =
     [ExternalTool ''read_file'' (\<lambda>k args. Inr (ok_result ''import os'')),
      ExternalTool ''run_tests'' (\<lambda>k args. Inr (ok_result ''1 failed''))]"

definition scenario_calls :: "nat \<Rightarrow> tool_call list" where
  "scenario_calls n =
     (if n = 1 then [call_start]
      else if n = 2 then [call_read ''c1'' ''a.py'']
      else if n = 3 then [call_tests ''c2'']
      else if n = 4 then [call_read ''c3'' ''b.py'']
      else [call_complete])"

definition scenario_env :: env where
  "scenario_env =
     \<lparr>max_steps = 5, tools = workspace_tools,
      llm = (\<lambda>n msgs. Inr \<lparr>reply_content = ''Working.'', reply_tool_calls = scenario_calls n,
                              input_tokens = 10, output_tokens = 5\<rparr>)\<rparr>"

text \<open>The two initial turns of a run in the workspace \<open>/w\<close> are \<open>prompt_turn\<close> and
  \<open>task_turn\<close>. The assistant turn of step \<open>n\<close> of the scenario, the buffer at the moment
  \<open>_handle_complete_focus\<close> is entered in step 5 (the turn that asks for \<open>complete_focus\<close>
  is the last one), and the agent at that moment: five inference calls and five tool
  executions are counted, five snapshots are recorded, the marker is anchored at 3.\<close>

definition prompt_turn :: Message where
  "prompt_turn = mk_message SYSTEM (system_prompt ''/w'')"

definition scenario_turn :: "nat \<Rightarrow> Message" where
  "scenario_turn n =
     \<lparr>role = ASSISTANT, content = ''Working.'', tool_calls = scenario_calls n,
      tool_call_id = None, name = None\<rparr>"

definition scenario_buffer :: "Message list" where
  "scenario_buffer =
     [prompt_turn, task_turn,
      scenario_turn 1, tool_message call_start (focus_started ''A'' ''G''),
      scenario_turn 2, tool_message (call_read ''c1'' ''a.py'') (ok_result ''import os''),
      scenario_turn 3, tool_message (call_tests ''c2'') (ok_result ''1 failed''),
      scenario_turn 4, tool_message (call_read ''c3'' ''b.py'') (ok_result ''import os''),
      scenario_turn 5]"

definition closing_agent :: agent where
  "closing_agent =
     \<lparr>messages = scenario_buffer,
      metrics =
        \<lparr>total_input_tokens = 50, total_output_tokens = 25, llm_calls = 5, n_tool_calls = 5,
         compressions = 0, messages_dropped = 0,
         trajectory =
           [\<lparr>step = 0, message_count = 3, total_tokens = 15, compressions_so_far = 0\<rparr>,
            \<lparr>step = 1, message_count = 5, total_tokens = 30, compressions_so_far = 0\<rparr>,
            \<lparr>step = 2, message_count = 7, total_tokens = 45, compressions_so_far = 0\<rparr>,
            \<lparr>step = 3, message_count = 9, total_tokens = 60, compressions_so_far = 0\<rparr>,
            \<lparr>step = 4, message_count = 11, total_tokens = 75, compressions_so_far = 0\<rparr>]\<rparr>,
      focus_stack = [focus_A 3], knowledge = []\<rparr>"

text \<open>Collaborators: a provider that never asks for an action, and a provider whose
  first reply opens a focus and closes it in the same batch.\<close>

definition quiet_env :: env where
  "quiet_env =
     \<lparr>max_steps = 2, tools = [],
      llm = (\<lambda>n msgs. Inr \<lparr>reply_content = ''Thinking.'', reply_tool_calls = [],
                              input_tokens = 10, output_tokens = 5\<rparr>)\<rparr>"

definition eager_env :: env where
  "eager_env =
     \<lparr>max_steps = 1, tools = [],
      llm = (\<lambda>n msgs. Inr \<lparr>reply_content = ''On it.'',
                              reply_tool_calls = [call_start, call_complete],
                              input_tokens = 10, output_tokens = 5\<rparr>)\<rparr>"

text \<open>An agent whose system turn ends with a line break, as the system prompt of \<open>run\<close>
  does, and whose ledger holds one entry, before the first splice.\<close>

definition primed_agent :: agent where
  "primed_agent =
     \<lparr>messages = [mk_message SYSTEM (''You are an expert software engineer.'' @ [CHR 0x0A]),
                  task_turn],
      metrics = fresh_metrics, focus_stack = [], knowledge = [entry_A]\<rparr>"

text \<open>An agent whose system turn carries a preamble while its ledger is empty.\<close>

definition stale_agent :: agent where
  "stale_agent =
     \<lparr>messages = [mk_message SYSTEM (''Be brief.'' @ [CHR 0x0A, CHR 0x0A] @ ''## KNOWLEDGE old''),
                  task_turn],
      metrics = fresh_metrics, focus_stack = [], knowledge = []\<rparr>"

text \<open>The assistant turn of that batch.\<close>

definition batch_turn :: Message where
  "batch_turn =
     \<lparr>role = ASSISTANT, content = ''On it.'', tool_calls = [call_start, call_complete],
      tool_call_id = None, name = None\<rparr>"

text \<open>The buffer of the run with that provider at the moment \<open>_handle_complete_focus\<close>
  is entered: the assistant turn asks for two actions and only the first is answered.
  The agent at that moment: one inference call and two tool executions are counted, one
  snapshot is recorded, the marker is anchored at 3.\<close>

definition batch_buffer :: "Message list" where
  "batch_buffer =
     [prompt_turn, task_turn, batch_turn,
      tool_message call_start (focus_started ''A'' ''G'')]"

definition batch_agent :: agent where
  "batch_agent =
     \<lparr>messages = batch_buffer,
      metrics =
        \<lparr>total_input_tokens = 10, total_output_tokens = 5, llm_calls = 1, n_tool_calls = 2,
         compressions = 0, messages_dropped = 0,
         trajectory =
           [\<lparr>step = 0, message_count = 3, total_tokens = 15, compressions_so_far = 0\<rparr>]\<rparr>,
      focus_stack = [focus_A 3], knowledge = []\<rparr>"

text \<open>The recursive equations of the loops are unfolded by hand.\<close>

declare safe_scan.simps [simp del]
declare spec_safe_index.simps [simp del]
declare str_nat.simps [simp del]
declare lstrip_rev.simps [simp del]

section \<open>Facts about splitting\<close>

lemma partition_first_first:
  assumes "sep \<noteq> []" and "\<not> sublist sep (b @ butlast sep)"
  shows "partition_first sep (b @ sep @ a) = Some (b, a)"
  using assms(2)
proof (induction b)
  case Nil
  from assms(1) obtain c cs where sep: "sep = c # cs" by (cases sep) auto
  have "partition_first sep (sep @ a) = Some ([], drop (length sep) (sep @ a))"
    unfolding sep by simp
  then show ?case by simp
next
  case (Cons c b)
  have np: "\<not> prefix sep ((c # b) @ sep @ a)"
  proof
    assume p: "prefix sep ((c # b) @ sep @ a)"
    have eq: "(c # b) @ sep @ a = ((c # b) @ butlast sep) @ (last sep # a)"
      using assms(1) by simp
    have "length sep \<le> length ((c # b) @ butlast sep)" by simp
    with p have "prefix sep ((c # b) @ butlast sep)"
      unfolding eq by (metis prefix_length_prefix prefix_order.dual_order.refl prefix_append le_refl prefixI)
    then have "sublist sep ((c # b) @ butlast sep)"
      by (rule prefix_imp_sublist)
    with Cons.prems show False by simp
  qed
  have "\<not> sublist sep (b @ butlast sep)"
    using Cons.prems by (simp add: sublist_Cons_right)
  with Cons.IH have "partition_first sep (b @ sep @ a) = Some (b, a)" by simp
  with np show ?case by simp
qed

lemma partition_first_Some:
  "partition_first sep s = Some (b, a) \<Longrightarrow> s = b @ sep @ a"
proof (induction s arbitrary: b)
  case Nil then show ?case by simp
next
  case (Cons c cs)
  show ?case
  proof (cases "prefix sep (c # cs)")
    case True
    with Cons.prems have "b = []" "a = drop (length sep) (c # cs)" by auto
    with True show ?thesis by (metis append_Nil append_take_drop_id prefix_def append_eq_conv_conj)
  next
    case False
    with Cons.prems obtain b' where "partition_first sep cs = Some (b', a)" "b = c # b'"
      by (auto split: option.splits)
    with Cons.IH show ?thesis by simp
  qed
qed

lemma partition_first_None:
  "sep \<noteq> [] \<Longrightarrow> partition_first sep s = None \<longleftrightarrow> \<not> sublist sep s"
  by (induction s) (auto simp: sublist_Cons_right split: option.splits)

lemma partition_first_min:
  assumes "sep \<noteq> []"
  shows "partition_first sep s = Some (b, a) \<Longrightarrow> \<not> sublist sep (b @ butlast sep)"
proof (induction s arbitrary: b)
  case Nil then show ?case by simp
next
  case (Cons c cs)
  show ?case
  proof (cases "prefix sep (c # cs)")
    case True
    with Cons.prems have "b = []" by auto
    moreover have "\<not> sublist sep (butlast sep)"
      using assms by (metis length_butlast sublist_length_le diff_less length_greater_0_conv
          less_one not_less)
    ultimately show ?thesis by simp
  next
    case False
    with Cons.prems obtain b' where p: "partition_first sep cs = Some (b', a)" and b: "b = c # b'"
      by (auto split: option.splits)
    from p have cs: "cs = b' @ sep @ a" by (rule partition_first_Some)
    have "\<not> prefix sep (c # b' @ butlast sep)"
    proof
      assume "prefix sep (c # b' @ butlast sep)"
      then have "prefix sep ((c # b' @ butlast sep) @ (last sep # a))"
        using prefix_prefix by fastforce 
      moreover have "(c # b' @ butlast sep) @ (last sep # a) = c # cs"
        using assms cs by simp
      ultimately show False using False by simp
    qed
    moreover have "\<not> sublist sep (b' @ butlast sep)" using Cons.IH [OF p] .
    ultimately show ?thesis unfolding b by (simp add: sublist_Cons_right)
  qed
qed

lemma partition_first_iff:
  assumes "sep \<noteq> []"
  shows "partition_first sep (b @ sep @ a) = Some (b, a) \<longleftrightarrow> \<not> sublist sep (b @ butlast sep)"
  using partition_first_min [OF assms] partition_first_first [OF assms] by blast

lemma partition_first_exists:
  assumes "sep \<noteq> []"
  shows "\<exists>b' a'. partition_first sep (b @ sep @ a) = Some (b', a')"
proof -
  have "sublist sep (b @ sep @ a)" by simp
  then have "partition_first sep (b @ sep @ a) \<noteq> None"
    using partition_first_None [OF assms] by simp
  then show ?thesis by auto
qed





lemma tag_complete: "\<not> sublist ''::'' (''FOCUS_COMPLETE'' @ butlast ''::'')"
  by code_simp


section \<open>The tagged strings of the focus tools\<close>





lemma parse_complete_some:
  "\<exists>fd. parse_focus_complete (CompleteFocusTool_output oc l na) = Some fd"
proof -
  have 1: "partition_first ''::'' (''FOCUS_COMPLETE'' @ ''::'' @ oc @ ''::'' @ l @ ''::'' @ na)
     = Some (''FOCUS_COMPLETE'', oc @ ''::'' @ l @ ''::'' @ na)"
    using tag_complete by (intro partition_first_first) simp_all
  obtain b' a' where 2: "partition_first ''::'' (oc @ ''::'' @ l @ ''::'' @ na) = Some (b', a')"
    using partition_first_exists [of "''::''" oc "l @ ''::'' @ na"] by auto
  have "length (split_max ''::'' 1 a') \<ge> 1"
    by (simp split: option.splits prod.splits)
  with 1 2 show ?thesis
    by (simp add: parse_focus_complete_def CompleteFocusTool_output_def numeral_3_eq_3)
qed

lemma parse_start_complete_none:
  "parse_focus_start (CompleteFocusTool_output oc l na) = None"
  by (simp add: parse_focus_start_def CompleteFocusTool_output_def)




section \<open>Truncation keeps the tool-pairing invariant\<close>

lemma group_ok_iff:
  "group_ok msgs i \<longleftrightarrow>
     (let calls = tool_calls (msgs ! i); n = length calls in
      i + n < length msgs
      \<and> (\<forall>k<n. role (msgs ! (i + 1 + k)) = TOOL
                 \<and> tool_call_id (msgs ! (i + 1 + k)) = Some (tc_id (calls ! k)))
      \<and> (i + n + 1 < length msgs \<longrightarrow> role (msgs ! (i + n + 1)) \<noteq> TOOL))"
  by (auto simp add: group_ok_def list_all_iff Let_def)

lemma tool_pairing_iff:
  "tool_pairing msgs \<longleftrightarrow>
     (\<forall>i<length msgs. role (msgs ! i) = ASSISTANT \<and> tool_calls (msgs ! i) \<noteq> []
         \<longrightarrow> group_ok msgs i)"
  by (auto simp add: tool_pairing_def list_all_iff)

lemma safe_scan_ge: "min_safe \<le> safe_scan msgs i"
  by (induction msgs i rule: safe_scan.induct) (subst safe_scan.simps, simp)

lemma safe_scan_boundary: "safe_scan msgs i = min_safe \<or> boundary msgs (safe_scan msgs i)"
proof (induction msgs i rule: safe_scan.induct)
  case (1 msgs i)
  show ?case
    using 1 by (subst (1 2) safe_scan.simps) (auto simp: boundary_def)
qed

lemma find_safe_ge: "min_safe \<le> find_safe_truncation_point msgs t"
  by (simp add: find_safe_truncation_point_def safe_scan_ge)

lemma find_safe_boundary:
  "find_safe_truncation_point msgs t = min_safe \<or> boundary msgs (find_safe_truncation_point msgs t)"
  using safe_scan_boundary by (simp add: find_safe_truncation_point_def)

lemma take_boundary_pairing:
  assumes p: "tool_pairing msgs" and b: "boundary msgs k"
  shows "tool_pairing (take k msgs)"
  unfolding tool_pairing_iff
proof (intro allI impI)
  fix i
  assume i: "i < length (take k msgs)"
    and a: "role (take k msgs ! i) = ASSISTANT \<and> tool_calls (take k msgs ! i) \<noteq> []"
  from i have ik: "i < k" and il: "i < length msgs" by simp_all
  with a have a': "role (msgs ! i) = ASSISTANT" "tool_calls (msgs ! i) \<noteq> []" by simp_all
  with p il have g: "group_ok msgs i" by (simp add: tool_pairing_iff)
  define n where "n = length (tool_calls (msgs ! i))"
  from g have g1: "i + n < length msgs"
    and g2: "\<And>j. j < n \<Longrightarrow> role (msgs ! (i + 1 + j)) = TOOL
                 \<and> tool_call_id (msgs ! (i + 1 + j)) = Some (tc_id (tool_calls (msgs ! i) ! j))"
    and g3: "i + n + 1 < length msgs \<Longrightarrow> role (msgs ! (i + n + 1)) \<noteq> TOOL"
    by (simp_all add: group_ok_iff Let_def n_def)
  from b have kl: "k \<le> length msgs" and k0: "0 < k"
    and bk: "role (msgs ! (k - 1)) = USER
             \<or> (role (msgs ! (k - 1)) = TOOL \<and> (k \<ge> length msgs \<or> role (msgs ! k) \<noteq> TOOL))"
    by (simp_all add: boundary_def)
  have ink: "i + n < k"
  proof (rule ccontr)
    assume "\<not> i + n < k"
    then have le: "k \<le> i + n" by simp
    show False
    proof (cases "k - 1 = i")
      case True
      with a' bk show False by auto
    next
      case False
      with ik k0 have "i < k - 1" by simp
      then obtain j where j: "k - 1 = i + 1 + j" by (metis less_iff_Suc_add Suc_eq_plus1 add.assoc add.commute)
      with le k0 have jn: "j < n" by simp
      have "k = i + 1 + (j + 1)" using j k0 by simp
      moreover have "j + 1 \<le> n" using jn by simp
      ultimately have kt: "k < length msgs \<and> role (msgs ! k) = TOOL"
      proof (cases "j + 1 = n")
        case True
        then show ?thesis using \<open>k = i + 1 + (j + 1)\<close> le by simp
      next
        case False
        then have "j + 1 < n" using \<open>j + 1 \<le> n\<close> by simp
        from g2 [OF this] g1 \<open>j + 1 < n\<close> show ?thesis using \<open>k = i + 1 + (j + 1)\<close> by simp
      qed
      from g2 [OF jn] j have "role (msgs ! (k - 1)) = TOOL" by simp
      with bk kt show False by simp
    qed
  qed
  show "group_ok (take k msgs) i"
    using ink ik g1 g2 g3 kl by (simp add: group_ok_iff Let_def n_def [symmetric])
qed

lemma take_min_pairing:
  assumes "initial_turns msgs"
  shows "tool_pairing (take min_safe msgs)"
  using assms by (auto simp: tool_pairing_iff initial_turns_def less_Suc_eq numeral_2_eq_2)

lemma take_all_pairing: "length msgs \<le> k \<Longrightarrow> take k msgs = msgs"
  by simp

lemma take_safe_pairing:
  assumes "tool_pairing msgs" and "initial_turns msgs"
  shows "tool_pairing (take (find_safe_truncation_point msgs t) msgs)"
  using find_safe_boundary [of msgs t] assms take_min_pairing take_boundary_pairing
  by metis

lemma take_safe_initial:
  assumes "initial_turns msgs"
  shows "initial_turns (take (find_safe_truncation_point msgs t) msgs)"
  using assms find_safe_ge [of msgs t] by (simp add: initial_turns_def)

lemma truncate_messages:
  "messages (truncate_to_focus focus s) =
     (if find_safe_truncation_point (messages s) (start_message_index focus) < length (messages s)
      then take (find_safe_truncation_point (messages s) (start_message_index focus)) (messages s)
      else messages s)"
  by (simp add: truncate_to_focus_def messages_to_drop_def Let_def)

lemma system_update_pairing:
  assumes "tool_pairing msgs" and "initial_turns msgs"
  shows "tool_pairing (msgs[0 := mk_message SYSTEM c])"
  unfolding tool_pairing_iff
proof (intro allI impI)
  fix i
  assume i: "i < length (msgs[0 := mk_message SYSTEM c])"
    and a: "role (msgs[0 := mk_message SYSTEM c] ! i) = ASSISTANT
            \<and> tool_calls (msgs[0 := mk_message SYSTEM c] ! i) \<noteq> []"
  from assms(2) have l0: "0 < length msgs" by (auto simp: initial_turns_def)
  have i0: "i \<noteq> 0"
  proof
    assume "i = 0"
    with l0 a show False by (simp add: mk_message_def)
  qed
  with i a assms(1) have "group_ok msgs i"
    by (simp add: tool_pairing_iff)
  with i0 show "group_ok (msgs[0 := mk_message SYSTEM c]) i"
    by (simp add: group_ok_iff Let_def)
qed

lemma system_update_initial:
  assumes "initial_turns msgs"
  shows "initial_turns (msgs[0 := mk_message SYSTEM c])"
proof -
  from assms have "0 < length msgs" by (auto simp: initial_turns_def)
  with assms show ?thesis by (simp add: initial_turns_def mk_message_def)
qed

lemma rebuild_messages:
  "messages (rebuild_messages_with_knowledge s) = messages s
   \<or> (\<exists>c. messages (rebuild_messages_with_knowledge s) = (messages s)[0 := mk_message SYSTEM c])"
  by (auto simp: rebuild_messages_with_knowledge_def Let_def)

lemma rebuild_pairing:
  assumes "tool_pairing (messages s)" and "initial_turns (messages s)"
  shows "tool_pairing (messages (rebuild_messages_with_knowledge s))
         \<and> initial_turns (messages (rebuild_messages_with_knowledge s))"
  using rebuild_messages [of s] assms system_update_pairing system_update_initial by metis

lemma append_user_pairing:
  assumes "tool_pairing msgs" and "role u = USER"
  shows "tool_pairing (msgs @ [u])"
  unfolding tool_pairing_iff
proof (intro allI impI)
  fix i
  assume i: "i < length (msgs @ [u])"
    and a: "role ((msgs @ [u]) ! i) = ASSISTANT \<and> tool_calls ((msgs @ [u]) ! i) \<noteq> []"
  have il: "i < length msgs"
    using i a assms(2) by (cases "i = length msgs") (auto simp: nth_append)
  with a assms(1) have g: "group_ok msgs i"
    by (simp add: tool_pairing_iff nth_append)
  then show "group_ok (msgs @ [u]) i"
    using il assms(2) by (auto simp: group_ok_iff Let_def nth_append)
qed

lemma append_initial: "initial_turns msgs \<Longrightarrow> initial_turns (msgs @ [u])"
  by (auto simp: initial_turns_def nth_append)

lemma truncate_pairing:
  assumes "tool_pairing (messages s)" and "initial_turns (messages s)"
  shows "tool_pairing (messages (truncate_to_focus focus s))
         \<and> initial_turns (messages (truncate_to_focus focus s))"
  using assms take_safe_pairing take_safe_initial by (simp add: truncate_messages)

lemma complete_messages:
  assumes "focus_stack s \<noteq> []"
  shows "messages (snd (handle_complete_focus fd s)) =
     messages (rebuild_messages_with_knowledge
       (truncate_to_focus (last (focus_stack s))
          (s\<lparr>focus_stack := butlast (focus_stack s),
             knowledge := knowledge s @
               [\<lparr>focus_description = description (last (focus_stack s)),
                 focus_goal = goal (last (focus_stack s)),
                 outcome = fd_outcome fd, learnings = fd_learnings fd\<rparr>]\<rparr>)))
     @ [mk_message USER (continuation (last (focus_stack s)) fd)]"
  using assms
  by (simp add: handle_complete_focus_def Let_def add_message_def compression_snapshot_def)

section \<open>The safe truncation index\<close>

text \<open>The scan of the source starts one place later than the scan of the specification:
  it looks at the turn at the candidate index itself and returns the index after it.\<close>

lemma safe_scan_shift: "safe_scan msgs i = spec_safe_index msgs (i + 1)"
proof (induction msgs i rule: safe_scan.induct)
  case (1 msgs i)
  show ?case
  proof (cases "i < min_safe")
    case True
    then show ?thesis
      by (subst safe_scan.simps, subst spec_safe_index.simps) simp
  next
    case False
    then have "i - 1 + 1 = i" by simp
    with 1 False show ?thesis
      by (subst safe_scan.simps, subst spec_safe_index.simps) (auto simp: boundary_def)
  qed
qed

lemma find_safe_shift:
  "find_safe_truncation_point msgs t =
     (if t \<le> min_safe then min_safe else spec_safe_index msgs (t + 1))"
  by (simp add: find_safe_truncation_point_def safe_scan_shift)

text \<open>
  Claim C2. The first step whose only action is \<open>start_focus\<close> leaves the buffer
  \<open>opened_buffer\<close> with the marker anchored at 3. The scan of the specification stops at
  2, the index after the task; the source returns 4, which is greater than the candidate.
\<close>

theorem safe_index_exceeds_candidate:
  "find_safe_truncation_point opened_buffer 3 = 4
   \<and> spec_safe_index opened_buffer 3 = 2
   \<and> \<not> find_safe_truncation_point opened_buffer 3 \<le> 3"
  by code_simp

section \<open>Rendering the knowledge ledger\<close>

text \<open>
  Claim C7. \<open>_build_knowledge_section\<close> reads nothing of the agent but the ledger: two
  agents with the same ordered entries render the same text, whatever their buffers,
  stacks and metrics are.
\<close>

theorem knowledge_section_pure:
  "knowledge s = knowledge s' \<Longrightarrow> build_knowledge_section s = build_knowledge_section s'"
  by (simp add: build_knowledge_section_def)

theorem knowledge_section_pure_witness:
  "knowledge learned_agent = knowledge other_agent
   \<and> messages learned_agent \<noteq> messages other_agent
   \<and> build_knowledge_section learned_agent = build_knowledge_section other_agent
   \<and> build_knowledge_section learned_agent \<noteq> []"
proof -
  have h: "knowledge learned_agent = knowledge other_agent"
    by (simp add: learned_agent_def other_agent_def)
  have m: "messages learned_agent \<noteq> messages other_agent"
    by (simp add: learned_agent_def other_agent_def working_agent_def working_buffer_def
        opened_buffer_def)
  have n: "build_knowledge_section learned_agent \<noteq> []"
    by (simp add: build_knowledge_section_def learned_agent_def knowledge_header_def)
  from knowledge_section_pure [OF h] h m n show ?thesis by simp
qed

section \<open>Completing a focus when none is open\<close>

lemma complete_tool_runs:
  assumes t: "get_tool_by_name E (tc_name tc) = Some CompleteFocusTool"
    and b: "binds [''outcome'', ''learnings''] [''next_action''] (tc_arguments tc)"
  shows "\<exists>fd. execute_tool_with_focus E tc s =
     Inr (handle_complete_focus fd
            (s\<lparr>metrics := (metrics s)\<lparr>n_tool_calls := n_tool_calls (metrics s) + 1\<rparr>\<rparr>))"
proof -
  obtain fd where fd: "parse_focus_complete (CompleteFocusTool_output
        (kwarg (tc_arguments tc) ''outcome'') (kwarg (tc_arguments tc) ''learnings'')
        (kwarg (tc_arguments tc) ''next_action'')) = Some fd"
    using parse_complete_some by blast
  have ne: "CompleteFocusTool_output a b c \<noteq> []" for a b c
    by (simp add: CompleteFocusTool_output_def)
  show ?thesis
    using t b fd ne
    by (auto simp: execute_tool_with_focus_def execute_tool_def CompleteFocusTool_execute_def
        ok_result_def parse_start_complete_none Let_def)
qed

text \<open>
  Claim C3. With no active focus, \<open>_handle_complete_focus\<close> returns the failed result
  \<open>no_active_focus\<close> (the source has no exception class for it: the failure is the
  result's \<open>success = False\<close> and its error text) and leaves the whole agent state as it
  was: buffer, ledger, stack and metrics. In the run loop the failure is not a
  compression signal, so a \<open>complete_focus\<close> call is answered by an ordinary tool-result
  turn carrying the error, only the counter of tool calls moves, and the loop goes on
  with the rest of the batch.
\<close>

theorem close_on_empty_stack:
  assumes "focus_stack s = []"
  shows "handle_complete_focus fd s = (no_active_focus, s)
     \<and> \<not> success no_active_focus \<and> \<not> is_compression no_active_focus
     \<and> (get_tool_by_name E (tc_name tc) = Some CompleteFocusTool
          \<and> binds [''outcome'', ''learnings''] [''next_action''] (tc_arguments tc)
        \<longrightarrow> process_tool_calls E (tc # tcs) s =
              process_tool_calls E tcs
                (add_message (tool_message tc no_active_focus)
                   (s\<lparr>metrics := (metrics s)\<lparr>n_tool_calls := n_tool_calls (metrics s) + 1\<rparr>\<rparr>)))"
proof (intro conjI impI)
  show "handle_complete_focus fd s = (no_active_focus, s)"
    using assms by (simp add: handle_complete_focus_def)
  show "\<not> success no_active_focus" "\<not> is_compression no_active_focus"
    by (simp_all add: no_active_focus_def)
next
  assume a: "get_tool_by_name E (tc_name tc) = Some CompleteFocusTool
          \<and> binds [''outcome'', ''learnings''] [''next_action''] (tc_arguments tc)"
  define s' where "s' = s\<lparr>metrics := (metrics s)\<lparr>n_tool_calls := n_tool_calls (metrics s) + 1\<rparr>\<rparr>"
  from a obtain fd' where "execute_tool_with_focus E tc s = Inr (handle_complete_focus fd' s')"
    using complete_tool_runs [of E tc s] by (auto simp: s'_def)
  moreover have "focus_stack s' = []" using assms by (simp add: s'_def)
  then have "handle_complete_focus fd' s' = (no_active_focus, s')"
    by (simp add: handle_complete_focus_def)
  ultimately show "process_tool_calls E (tc # tcs) s =
              process_tool_calls E tcs (add_message (tool_message tc no_active_focus) s')"
    by (simp add: no_active_focus_def)
qed

theorem close_on_empty_stack_witness:
  "focus_stack idle_agent = []
   \<and> handle_complete_focus done_X idle_agent = (no_active_focus, idle_agent)
   \<and> get_tool_by_name quiet_env (tc_name call_complete) = Some CompleteFocusTool
   \<and> binds [''outcome'', ''learnings''] [''next_action''] (tc_arguments call_complete)
   \<and> process_tool_calls quiet_env [call_complete] idle_agent =
       Inr (False, add_message (tool_message call_complete no_active_focus)
              (idle_agent\<lparr>metrics := (metrics idle_agent)\<lparr>n_tool_calls := 1\<rparr>\<rparr>))
   \<and> content (tool_message call_complete no_active_focus)
       = ''Error: No active focus to complete. Use start_focus first.''"
proof -
  have h: "focus_stack idle_agent = []" by (simp add: idle_agent_def)
  have t: "get_tool_by_name quiet_env (tc_name call_complete) = Some CompleteFocusTool"
    by (simp add: get_tool_by_name_def all_tools_def quiet_env_def call_complete_def)
  have b: "binds [''outcome'', ''learnings''] [''next_action''] (tc_arguments call_complete)"
    by (simp add: binds_def call_complete_def)
  have m: "n_tool_calls (metrics idle_agent) = 0"
    by (simp add: idle_agent_def working_agent_def fresh_metrics_def reset_def)
  have c: "content (tool_message call_complete no_active_focus)
       = ''Error: No active focus to complete. Use start_focus first.''"
    by (simp add: tool_message_def no_active_focus_def)
  from close_on_empty_stack [OF h, of done_X quiet_env call_complete "[]"] h t b m c
  show ?thesis by simp
qed

section \<open>The rendered ledger in the system turn\<close>

lemma truncate_at_min:
  assumes "start_message_index focus \<le> min_safe" and "min_safe \<le> length (messages s)"
  shows "messages (truncate_to_focus focus s) = take min_safe (messages s)"
  using assms by (simp add: truncate_messages find_safe_truncation_point_def)

lemma rebuild_content:
  assumes "min_safe \<le> length (messages s)" and "knowledge s \<noteq> []"
  shows "\<exists>base. messages (rebuild_messages_with_knowledge s)
            = (messages s)[0 := mk_message SYSTEM
                 (base @ [CHR 0x0A, CHR 0x0A] @ build_knowledge_section s)]"
proof -
  have "build_knowledge_section s \<noteq> []"
    using assms(2)
    by (cases "knowledge_lines 1 (knowledge s)")
       (simp_all add: build_knowledge_section_def knowledge_header_def)
  with assms(1) show ?thesis
    by (auto simp: rebuild_messages_with_knowledge_def Let_def)
qed

lemma section_single:
  assumes "knowledge s = [e]"
  shows "build_knowledge_section s =
     (knowledge_header @ [CHR 0x0A] @ ''### '' @ str_nat 1 @ ''. ['' @ outcome_emoji (outcome e)
        @ ''] '' @ focus_description e @ [CHR 0x0A] @ ''**Goal:** '' @ focus_goal e
        @ [CHR 0x0A] @ ''**Outcome:** '' @ outcome e @ [CHR 0x0A])
     @ (''**Learnings:** '' @ learnings e) @ [CHR 0x0A]"
  using assms by (simp add: build_knowledge_section_def)

lemma section_single_learnings:
  assumes "knowledge s = [e]"
  shows "sublist (''**Learnings:** '' @ learnings e) (build_knowledge_section s)"
  unfolding section_single [OF assms] by (rule sublist_appendI)

lemma sublist_in_append:
  "sublist x b \<Longrightarrow> sublist x (a @ b)"
  by (metis sublist_append)


section \<open>Splicing the knowledge preamble into the system turn\<close>

lemma hd_split_all:
  "hd (split_all sep s) = (case partition_first sep s of None \<Rightarrow> s | Some (b, a) \<Rightarrow> b)"
proof (cases s)
  case Nil
  then show ?thesis by (simp add: split_all_def)
next
  case (Cons c cs)
  then show ?thesis by (simp add: split_all_def split: option.splits)
qed

lemma before_marker_absent:
  "\<not> sublist knowledge_marker c \<Longrightarrow> before_marker c = c"
  using partition_first_None [of knowledge_marker c]
  by (simp add: before_marker_def hd_split_all knowledge_marker_def)

lemma before_marker_no_marker: "\<not> sublist knowledge_marker (before_marker c)"
proof (cases "partition_first knowledge_marker c")
  case None
  then have "\<not> sublist knowledge_marker c"
    using partition_first_None [of knowledge_marker c] by (simp add: knowledge_marker_def)
  then show ?thesis by (simp add: before_marker_absent)
next
  case (Some p)
  obtain b a where p: "p = (b, a)" by (cases p)
  with Some have "\<not> sublist knowledge_marker (b @ butlast knowledge_marker)"
    using partition_first_min [of knowledge_marker c b a] by (simp add: knowledge_marker_def)
  then have "\<not> sublist knowledge_marker b"
    by (simp add: sublist_append)
  with Some p show ?thesis by (simp add: before_marker_def hd_split_all)
qed

lemma prefix_without:
  assumes "c \<notin> set m" and "prefix m (c # y)"
  shows "m = []"
  using assms by (cases m) (auto simp: prefix_Cons)

lemma sublist_across:
  assumes "c \<notin> set m"
  shows "sublist m (x @ c # y) \<longleftrightarrow> sublist m x \<or> sublist m y"
proof
  assume "sublist m (x @ c # y)"
  then consider "sublist m x" | "sublist m (c # y)"
    | xs1 xs2 where "m = xs1 @ xs2" "suffix xs1 x" "prefix xs2 (c # y)"
    unfolding sublist_append by blast
  then show "sublist m x \<or> sublist m y"
  proof cases
    case 1
    then show ?thesis by simp
  next
    case 2
    then have "prefix m (c # y) \<or> sublist m y" by (simp add: sublist_Cons_right)
    then show ?thesis
    proof
      assume "prefix m (c # y)"
      with assms have "m = []" by (rule prefix_without)
      then show ?thesis by simp
    qed simp
  next
    case 3
    from assms 3(1) have "c \<notin> set xs2" by simp
    from this 3(3) have "xs2 = []" by (rule prefix_without)
    with 3(1,2) have "suffix m x" by simp
    then show ?thesis by (simp add: suffix_imp_sublist)
  qed
next
  assume "sublist m x \<or> sublist m y"
  then show "sublist m (x @ c # y)"
    by (auto simp: sublist_append sublist_Cons_right)
qed

lemma strip_one_newline: "strip_one (CHR 0x0A # r) = Some r"
  by (simp add: strip_one_def whitespace_def)

lemma lstrip_rev_newline: "lstrip_rev (CHR 0x0A # r) = lstrip_rev r"
  by (subst lstrip_rev.simps) (simp add: strip_one_newline)

lemma rstrip_append_newlines: "rstrip (s @ [CHR 0x0A, CHR 0x0A]) = rstrip s"
  by (simp add: rstrip_def lstrip_rev_newline)

lemma strip_one_lstrip_rev: "strip_one (lstrip_rev r) = None"
proof (induction r rule: lstrip_rev.induct)
  case (1 r)
  then show ?case
    by (subst lstrip_rev.simps) (simp split: option.splits)
qed

lemma lstrip_rev_idem: "lstrip_rev (lstrip_rev r) = lstrip_rev r"
  by (subst lstrip_rev.simps) (simp add: strip_one_lstrip_rev)

lemma rstrip_idem: "rstrip (rstrip s) = rstrip s"
  by (simp add: rstrip_def lstrip_rev_idem)

lemma lstrip_rev_suffix: "suffix (lstrip_rev r) r"
proof (induction r rule: lstrip_rev.induct)
  case (1 r)
  show ?case
  proof (cases "strip_one r")
    case None
    then show ?thesis by (subst lstrip_rev.simps) simp
  next
    case (Some r')
    then have "suffix r' r"
      by (auto simp: strip_one_def suffix_drop split: option.splits)
    moreover from Some 1 have "suffix (lstrip_rev r') r'" by simp
    ultimately have "suffix (lstrip_rev r') r" by (rule suffix_order.trans [rotated])
    with Some show ?thesis by (subst lstrip_rev.simps) simp
  qed
qed

lemma rstrip_prefix: "prefix (rstrip s) s"
  using lstrip_rev_suffix [of "rev s"] by (simp add: rstrip_def suffix_to_prefix)

lemma rstrip_no_marker: "\<not> sublist m s \<Longrightarrow> \<not> sublist m (rstrip s)"
  using rstrip_prefix [of s] by (meson prefix_imp_sublist sublist_order.order_trans)

lemma join_Cons: "join sep (x # xs) = x @ (if xs = [] then [] else sep @ join sep xs)"
  by (cases xs) simp_all

lemma section_starts:
  assumes "build_knowledge_section s \<noteq> []"
  shows "\<exists>rest. build_knowledge_section s = knowledge_marker @ rest"
proof -
  have h: "knowledge_header = knowledge_marker @ '' (Preserved from previous investigations)'' @ [CHR 0x0A]"
    by (simp add: knowledge_header_def knowledge_marker_def)
  from assms have "build_knowledge_section s
      = join [CHR 0x0A] (knowledge_header # knowledge_lines 1 (knowledge s))"
    by (simp add: build_knowledge_section_def split: if_splits)
  then have "build_knowledge_section s = knowledge_marker @
      ('' (Preserved from previous investigations)'' @ [CHR 0x0A]
       @ (if knowledge_lines 1 (knowledge s) = [] then []
          else [CHR 0x0A] @ join [CHR 0x0A] (knowledge_lines 1 (knowledge s))))"
    unfolding join_Cons h by simp
  then show ?thesis by blast
qed

lemma marker_after_newline: "\<not> sublist knowledge_marker (CHR 0x0A # butlast knowledge_marker)"
  by code_simp

lemma spliced_partition:
  assumes "\<not> sublist knowledge_marker base"
  shows "partition_first knowledge_marker (base @ [CHR 0x0A, CHR 0x0A] @ knowledge_marker @ rest)
           = Some (base @ [CHR 0x0A, CHR 0x0A], rest)"
proof -
  have n: "CHR 0x0A \<notin> set knowledge_marker" by (simp add: knowledge_marker_def)
  have "\<not> sublist knowledge_marker (base @ CHR 0x0A # (CHR 0x0A # butlast knowledge_marker))"
    using assms marker_after_newline by (simp add: sublist_across [OF n])
  then have "\<not> sublist knowledge_marker ((base @ [CHR 0x0A, CHR 0x0A]) @ butlast knowledge_marker)"
    by simp
  moreover have "knowledge_marker \<noteq> []" by (simp add: knowledge_marker_def)
  ultimately have "partition_first knowledge_marker
      ((base @ [CHR 0x0A, CHR 0x0A]) @ knowledge_marker @ rest) = Some (base @ [CHR 0x0A, CHR 0x0A], rest)"
    by (rule partition_first_first [rotated])
  then show ?thesis by simp
qed

lemma before_marker_spliced:
  assumes "\<not> sublist knowledge_marker base" and "build_knowledge_section s \<noteq> []"
  shows "before_marker (base @ [CHR 0x0A, CHR 0x0A] @ build_knowledge_section s)
           = base @ [CHR 0x0A, CHR 0x0A]"
proof -
  from assms(2) obtain rest where "build_knowledge_section s = knowledge_marker @ rest"
    using section_starts by blast
  with spliced_partition [OF assms(1), of rest] show ?thesis
    by (simp add: before_marker_def hd_split_all)
qed

text \<open>The text that the splice keeps of the old system turn.\<close>

lemma rebuild_spliced:
  assumes "min_safe \<le> length (messages s)"
  shows "rebuild_messages_with_knowledge s =
     s\<lparr>messages := (messages s)[0 := mk_message SYSTEM
          ((if sublist knowledge_marker (content (messages s ! 0))
            then rstrip (before_marker (content (messages s ! 0)))
            else content (messages s ! 0))
           @ (if build_knowledge_section s \<noteq> []
              then [CHR 0x0A, CHR 0x0A] @ build_knowledge_section s else []))]\<rparr>"
  using assms by (simp add: rebuild_messages_with_knowledge_def Let_def before_marker_def)

lemma kept_no_marker:
  "\<not> sublist knowledge_marker
      (if sublist knowledge_marker c then rstrip (before_marker c) else c)"
  by (simp add: rstrip_no_marker before_marker_no_marker)

lemma kept_rstrip:
  "rstrip (if sublist knowledge_marker c then rstrip (before_marker c) else c)
     = rstrip (before_marker c)"
  by (simp add: rstrip_idem before_marker_absent)

text \<open>The system prompt of \<open>run\<close> ends with a line break.\<close>

lemma join_snoc_empty: "xs \<noteq> [] \<Longrightarrow> join sep (xs @ [[]]) = join sep xs @ sep"
  by (induction sep xs rule: join.induct) auto

lemma join_last_empty:
  assumes "1 < length xs" and "last xs = []"
  shows "last (join [c] xs) = c"
proof -
  from assms(1) have ne: "xs \<noteq> []" by auto
  with assms(2) have x: "xs = butlast xs @ [[]]"
    using append_butlast_last_id [of xs] by simp
  from assms(1) have "butlast xs \<noteq> []"
    by (cases xs) (auto split: if_splits)
  then have "join [c] (butlast xs @ [[]]) = join [c] (butlast xs) @ [c]"
    by (rule join_snoc_empty)
  with x show ?thesis by (metis last_snoc)
qed

lemma prompt_last: "last (system_prompt w) = CHR 0x0A"
  unfolding system_prompt_def by (rule join_last_empty) simp_all

lemma section_empty_iff: "build_knowledge_section s = [] \<longleftrightarrow> knowledge s = []"
  by (cases "knowledge_lines 1 (knowledge s)")
     (simp_all add: build_knowledge_section_def knowledge_header_def)

text \<open>
  Claim C6, as amended. With fewer than two turns the splice does nothing. Otherwise it
  replaces the turn at index 0 by a system turn and changes nothing else of the agent:
  every other turn and the rest of the state are as before. The text of the new system
  turn is exactly: the old text before the first marker, with its trailing whitespace
  stripped when the marker occurred (the whole old text, unstripped, when it did not),
  then, when the ledger is not empty, an empty line (two line breaks) and the freshly
  rendered preamble; when the ledger is empty nothing is appended. Consequently the text
  before the marker is the same before and after the splice up to trailing whitespace;
  with a non-empty ledger the new text before the marker is the kept text and the empty
  line, and what follows it is exactly the fresh rendering; with an empty ledger the new
  system turn holds no marker.
\<close>

theorem splice_frame:
  "(length (messages s) < min_safe \<longrightarrow> rebuild_messages_with_knowledge s = s)
   \<and> (min_safe \<le> length (messages s) \<longrightarrow>
       (let s' = rebuild_messages_with_knowledge s;
            c = content (messages s ! 0);
            c' = content (messages s' ! 0);
            kept = (if sublist knowledge_marker c then rstrip (before_marker c) else c)
        in s' = s\<lparr>messages := (messages s)[0 := mk_message SYSTEM c']\<rparr>
           \<and> c' = kept @ (if knowledge s = [] then []
                           else [CHR 0x0A, CHR 0x0A] @ build_knowledge_section s)
           \<and> rstrip (before_marker c') = rstrip (before_marker c)
           \<and> (knowledge s \<noteq> [] \<longrightarrow>
                before_marker c' = kept @ [CHR 0x0A, CHR 0x0A]
                \<and> c' = before_marker c' @ build_knowledge_section s)
           \<and> (knowledge s = [] \<longrightarrow> \<not> sublist knowledge_marker c')))"
proof (intro conjI impI)
  assume "length (messages s) < min_safe"
  then show "rebuild_messages_with_knowledge s = s"
    by (simp add: rebuild_messages_with_knowledge_def)
next
  assume l: "min_safe \<le> length (messages s)"
  define c where "c = content (messages s ! 0)"
  define kept where "kept = (if sublist knowledge_marker c then rstrip (before_marker c) else c)"
  define sec where "sec = build_knowledge_section s"
  define c' where "c' = kept @ (if knowledge s = [] then [] else [CHR 0x0A, CHR 0x0A] @ sec)"
  have e: "sec = [] \<longleftrightarrow> knowledge s = []"
    unfolding sec_def by (rule section_empty_iff)
  have r: "rebuild_messages_with_knowledge s = s\<lparr>messages := (messages s)[0 := mk_message SYSTEM c']\<rparr>"
    using rebuild_spliced [OF l] e by (simp add: c'_def kept_def sec_def c_def)
  from l have "0 < length (messages s)" by auto
  with r have c'': "content (messages (rebuild_messages_with_knowledge s) ! 0) = c'"
    by (simp add: mk_message_def)
  have nk: "\<not> sublist knowledge_marker kept" unfolding kept_def by (rule kept_no_marker)
  have rk: "rstrip kept = rstrip (before_marker c)" unfolding kept_def by (rule kept_rstrip)
  have b: "before_marker c' = (if knowledge s = [] then kept else kept @ [CHR 0x0A, CHR 0x0A])"
  proof (cases "knowledge s = []")
    case True
    with nk show ?thesis by (simp add: c'_def before_marker_absent)
  next
    case False
    with e have "build_knowledge_section s \<noteq> []" by (simp add: sec_def)
    with nk before_marker_spliced [of kept s] False show ?thesis by (simp add: c'_def sec_def)
  qed
  have 0: "c' = kept @ (if knowledge s = [] then [] else [CHR 0x0A, CHR 0x0A] @ sec)"
    by (simp add: c'_def)
  have 1: "rstrip (before_marker c') = rstrip (before_marker c)"
    using b rk by (simp add: rstrip_append_newlines)
  have 2: "knowledge s \<noteq> [] \<longrightarrow>
             before_marker c' = kept @ [CHR 0x0A, CHR 0x0A] \<and> c' = before_marker c' @ sec"
  proof
    assume ne: "knowledge s \<noteq> []"
    with b have "before_marker c' = kept @ [CHR 0x0A, CHR 0x0A]" by simp
    moreover from ne have "c' = (kept @ [CHR 0x0A, CHR 0x0A]) @ sec" by (simp add: c'_def)
    ultimately show "before_marker c' = kept @ [CHR 0x0A, CHR 0x0A] \<and> c' = before_marker c' @ sec"
      by simp
  qed
  have 3: "knowledge s = [] \<longrightarrow> \<not> sublist knowledge_marker c'"
    using nk by (simp add: c'_def)
  show "let s' = rebuild_messages_with_knowledge s;
            c = content (messages s ! 0);
            c' = content (messages s' ! 0);
            kept = (if sublist knowledge_marker c then rstrip (before_marker c) else c)
        in s' = s\<lparr>messages := (messages s)[0 := mk_message SYSTEM c']\<rparr>
           \<and> c' = kept @ (if knowledge s = [] then []
                           else [CHR 0x0A, CHR 0x0A] @ build_knowledge_section s)
           \<and> rstrip (before_marker c') = rstrip (before_marker c)
           \<and> (knowledge s \<noteq> [] \<longrightarrow>
                before_marker c' = kept @ [CHR 0x0A, CHR 0x0A]
                \<and> c' = before_marker c' @ build_knowledge_section s)
           \<and> (knowledge s = [] \<longrightarrow> \<not> sublist knowledge_marker c')"
    unfolding Let_def c'' c_def [symmetric] kept_def [symmetric] sec_def [symmetric]
    by (intro conjI) (rule r 0 1 2 3)+
qed

text \<open>The theorem at three agents: one whose system turn ends with a line break and whose
  ledger holds an entry (nothing is stripped, the empty line and the preamble are
  appended, so three line breaks precede the marker); one with fewer than two turns; and
  one whose system turn carries an old preamble while the ledger is empty (the preamble
  and the whitespace before it are removed, nothing is appended).\<close>

theorem splice_frame_witness:
  "min_safe \<le> length (messages primed_agent)
   \<and> knowledge primed_agent \<noteq> []
   \<and> content (messages (rebuild_messages_with_knowledge primed_agent) ! 0)
       = ''You are an expert software engineer.'' @ [CHR 0x0A] @ [CHR 0x0A, CHR 0x0A]
         @ build_knowledge_section primed_agent
   \<and> before_marker (content (messages (rebuild_messages_with_knowledge primed_agent) ! 0))
       = ''You are an expert software engineer.'' @ [CHR 0x0A] @ [CHR 0x0A, CHR 0x0A]
   \<and> rebuild_messages_with_knowledge primed_agent
       = primed_agent\<lparr>messages := (messages primed_agent)
           [0 := mk_message SYSTEM
                   (content (messages (rebuild_messages_with_knowledge primed_agent) ! 0))]\<rparr>
   \<and> length (messages reset) < min_safe
   \<and> rebuild_messages_with_knowledge reset = reset
   \<and> min_safe \<le> length (messages stale_agent)
   \<and> knowledge stale_agent = []
   \<and> content (messages (rebuild_messages_with_knowledge stale_agent) ! 0) = ''Be brief.''
   \<and> \<not> sublist knowledge_marker
         (content (messages (rebuild_messages_with_knowledge stale_agent) ! 0))"
proof -
  have 1: "min_safe \<le> length (messages primed_agent)"
    by (simp add: primed_agent_def)
  have 2: "knowledge primed_agent \<noteq> []"
    by (simp add: primed_agent_def)
  have 3: "length (messages reset) < min_safe"
    by (simp add: reset_def)
  have 4: "min_safe \<le> length (messages stale_agent)"
    by (simp add: stale_agent_def)
  have 5: "knowledge stale_agent = []"
    by (simp add: stale_agent_def)
  have 6: "content (messages primed_agent ! 0) = ''You are an expert software engineer.'' @ [CHR 0x0A]"
    by (simp add: primed_agent_def mk_message_def)
  have 7: "\<not> sublist knowledge_marker (''You are an expert software engineer.'' @ [CHR 0x0A])"
    by code_simp
  have 8: "content (messages stale_agent ! 0)
             = ''Be brief.'' @ [CHR 0x0A, CHR 0x0A] @ ''## KNOWLEDGE old''"
    by (simp add: stale_agent_def mk_message_def)
  have 9: "sublist knowledge_marker (''Be brief.'' @ [CHR 0x0A, CHR 0x0A] @ ''## KNOWLEDGE old'')"
    by code_simp
  have 10: "rstrip (before_marker (''Be brief.'' @ [CHR 0x0A, CHR 0x0A] @ ''## KNOWLEDGE old''))
              = ''Be brief.''"
    by code_simp
  note sp = splice_frame [of primed_agent, unfolded Let_def, THEN conjunct2, rule_format, OF 1]
  note ss = splice_frame [of stale_agent, unfolded Let_def, THEN conjunct2, rule_format, OF 4]
  note sr = splice_frame [of reset, THEN conjunct1, rule_format, OF 3]
  note p1 = sp [THEN conjunct1]
  note p2' = sp [THEN conjunct2, THEN conjunct1]
  note p3' = sp [THEN conjunct2, THEN conjunct2, THEN conjunct2, THEN conjunct1, rule_format,
                 OF 2, THEN conjunct1]
  note q1' = ss [THEN conjunct2, THEN conjunct1]
  note q2 = ss [THEN conjunct2, THEN conjunct2, THEN conjunct2, THEN conjunct2, rule_format, OF 5]
  from p2' 2 7 have p2: "content (messages (rebuild_messages_with_knowledge primed_agent) ! 0)
       = ''You are an expert software engineer.'' @ [CHR 0x0A] @ [CHR 0x0A, CHR 0x0A]
         @ build_knowledge_section primed_agent"
    unfolding 6 by simp
  from p3' 7 have p3: "before_marker (content (messages (rebuild_messages_with_knowledge primed_agent) ! 0))
       = ''You are an expert software engineer.'' @ [CHR 0x0A] @ [CHR 0x0A, CHR 0x0A]"
    unfolding 6 by simp
  from q1' 5 9 10 have q1: "content (messages (rebuild_messages_with_knowledge stale_agent) ! 0)
       = ''Be brief.''"
    unfolding 8 by simp
  show ?thesis
    by (intro conjI) (rule 1 2 p2 p3 p1 3 sr 4 5 q1 q2)+
qed

text \<open>The claim as stated fails: the second splice of a run strips the line break that
  ends the system prompt, so the text before the marker is not the same byte for byte.\<close>

theorem splice_frame_counterexample:
  "before_marker (content (messages (rebuild_messages_with_knowledge primed_agent) ! 0))
     = ''You are an expert software engineer.'' @ [CHR 0x0A, CHR 0x0A, CHR 0x0A]
   \<and> before_marker (content (messages (rebuild_messages_with_knowledge
         (rebuild_messages_with_knowledge primed_agent)) ! 0))
     = ''You are an expert software engineer.'' @ [CHR 0x0A, CHR 0x0A]
   \<and> before_marker (content (messages (rebuild_messages_with_knowledge
         (rebuild_messages_with_knowledge primed_agent)) ! 0))
     \<noteq> before_marker (content (messages (rebuild_messages_with_knowledge primed_agent) ! 0))"
  by code_simp

section \<open>The trajectory of a run\<close>

lemma traj_inv_snapshot:
  assumes "sorted (map compressions_so_far t)"
    and "list_all (\<lambda>x. compressions_so_far x \<le> c) t"
  shows "sorted (map compressions_so_far (t @ [\<lparr>step = a, message_count = b,
            total_tokens = d, compressions_so_far = c\<rparr>]))
       \<and> list_all (\<lambda>x. compressions_so_far x \<le> c) (t @ [\<lparr>step = a, message_count = b,
            total_tokens = d, compressions_so_far = c\<rparr>])"
  using assms by (auto simp: sorted_append list_all_iff)

lemma truncate_fields:
  "trajectory (metrics (truncate_to_focus f s)) = trajectory (metrics s)
   \<and> llm_calls (metrics (truncate_to_focus f s)) = llm_calls (metrics s)
   \<and> knowledge (truncate_to_focus f s) = knowledge s
   \<and> focus_stack (truncate_to_focus f s) = focus_stack s
   \<and> compressions (metrics (truncate_to_focus f s)) =
       compressions (metrics s)
       + (if find_safe_truncation_point (messages s) (start_message_index f) < length (messages s)
          then 1 else 0)"
  by (simp add: truncate_to_focus_def messages_to_drop_def Let_def)

lemma rebuild_fields:
  "metrics (rebuild_messages_with_knowledge s) = metrics s
   \<and> knowledge (rebuild_messages_with_knowledge s) = knowledge s
   \<and> focus_stack (rebuild_messages_with_knowledge s) = focus_stack s
   \<and> length (messages (rebuild_messages_with_knowledge s)) = length (messages s)"
  by (simp add: rebuild_messages_with_knowledge_def Let_def)

lemma complete_fields:
  assumes "focus_stack s \<noteq> []"
  shows "success (fst (handle_complete_focus fd s))
   \<and> is_compression (fst (handle_complete_focus fd s))
   \<and> knowledge (snd (handle_complete_focus fd s)) = knowledge s @
        [\<lparr>focus_description = description (last (focus_stack s)),
          focus_goal = goal (last (focus_stack s)),
          outcome = fd_outcome fd, learnings = fd_learnings fd\<rparr>]
   \<and> focus_stack (snd (handle_complete_focus fd s)) = butlast (focus_stack s)
   \<and> llm_calls (metrics (snd (handle_complete_focus fd s))) = llm_calls (metrics s)
   \<and> compressions (metrics (snd (handle_complete_focus fd s))) =
       compressions (metrics s)
       + (if find_safe_truncation_point (messages s) (start_message_index (last (focus_stack s)))
             < length (messages s) then 1 else 0)
   \<and> (\<exists>a b d. trajectory (metrics (snd (handle_complete_focus fd s))) =
        trajectory (metrics s) @
          [\<lparr>step = a, message_count = b, total_tokens = d,
            compressions_so_far = compressions (metrics (snd (handle_complete_focus fd s)))\<rparr>])"
  using assms
  by (simp add: handle_complete_focus_def Let_def add_message_def compression_snapshot_def
      truncate_fields rebuild_fields)

lemma complete_inv:
  assumes "traj_inv s"
  shows "traj_inv (snd (handle_complete_focus fd s))
       \<and> llm_calls (metrics (snd (handle_complete_focus fd s))) = llm_calls (metrics s)"
proof (cases "focus_stack s = []")
  case True
  with assms show ?thesis by (simp add: handle_complete_focus_def)
next
  case False
  let ?s' = "snd (handle_complete_focus fd s)"
  from complete_fields [OF False, of fd] obtain a b d where
    k: "knowledge ?s' = knowledge s @
        [\<lparr>focus_description = description (last (focus_stack s)),
          focus_goal = goal (last (focus_stack s)),
          outcome = fd_outcome fd, learnings = fd_learnings fd\<rparr>]"
    and l: "llm_calls (metrics ?s') = llm_calls (metrics s)"
    and c: "compressions (metrics s) \<le> compressions (metrics ?s')"
    and t: "trajectory (metrics ?s') = trajectory (metrics s) @
          [\<lparr>step = a, message_count = b, total_tokens = d,
            compressions_so_far = compressions (metrics ?s')\<rparr>]"
    by auto
  from assms c have "list_all (\<lambda>x. compressions_so_far x \<le> compressions (metrics ?s'))
      (trajectory (metrics s))"
    by (auto simp: traj_inv_def list_all_iff)
  with assms traj_inv_snapshot [of "trajectory (metrics s)" "compressions (metrics ?s')" a b d]
  have "sorted (map compressions_so_far (trajectory (metrics ?s')))
      \<and> list_all (\<lambda>x. compressions_so_far x \<le> compressions (metrics ?s'))
           (trajectory (metrics ?s'))"
    unfolding t by (simp add: traj_inv_def)
  moreover have "length (trajectory (metrics ?s')) = llm_calls (metrics ?s') + length (knowledge ?s')"
    using assms by (simp add: t k l traj_inv_def)
  ultimately show ?thesis using l by (simp add: traj_inv_def)
qed

lemma start_inv:
  "traj_inv (handle_start_focus d g s) = traj_inv s
   \<and> llm_calls (metrics (handle_start_focus d g s)) = llm_calls (metrics s)"
  by (simp add: handle_start_focus_def traj_inv_def)

lemma execute_tool_inv:
  assumes "execute_tool E nm args s = Inr (r, s')" and "traj_inv s"
  shows "traj_inv s' \<and> llm_calls (metrics s') = llm_calls (metrics s)"
  using assms
  by (auto simp: execute_tool_def Let_def traj_inv_def split: option.splits sum.splits)

lemma execute_focus_inv:
  assumes "execute_tool_with_focus E tc s = Inr (r, s')" and "traj_inv s"
  shows "traj_inv s' \<and> llm_calls (metrics s') = llm_calls (metrics s)"
proof -
  from assms(1) obtain r0 s0 where
    e: "execute_tool E (tc_name tc) (tc_arguments tc) s = Inr (r0, s0)"
    by (auto simp: execute_tool_with_focus_def split: sum.splits)
  from execute_tool_inv [OF e assms(2)]
  have i0: "traj_inv s0" and l0: "llm_calls (metrics s0) = llm_calls (metrics s)" by simp_all
  from assms(1) e consider "s' = s0"
    | d g where "s' = handle_start_focus d g s0"
    | fd where "handle_complete_focus fd s0 = (r, s')"
    by (auto simp: execute_tool_with_focus_def split: if_splits option.splits prod.splits)
  then show ?thesis
  proof cases
    case 1
    with i0 l0 show ?thesis by simp
  next
    case 2
    with i0 l0 show ?thesis by (simp add: start_inv)
  next
    case 3
    then have "s' = snd (handle_complete_focus fd s0)" by simp
    with l0 complete_inv [OF i0, of fd] show ?thesis by simp
  qed
qed

lemma add_message_inv:
  "traj_inv (add_message m s) = traj_inv s
   \<and> llm_calls (metrics (add_message m s)) = llm_calls (metrics s)"
  by (simp add: add_message_def traj_inv_def)

lemma process_inv:
  assumes "process_tool_calls E tcs s = Inr (b, s')" and "traj_inv s"
  shows "traj_inv s' \<and> llm_calls (metrics s') = llm_calls (metrics s)"
  using assms
proof (induction tcs arbitrary: s)
  case Nil
  then show ?case by simp
next
  case (Cons tc tcs)
  from Cons.prems(1) obtain r s1 where
    e: "execute_tool_with_focus E tc s = Inr (r, s1)"
    by (auto split: sum.splits)
  from execute_focus_inv [OF e Cons.prems(2)]
  have i1: "traj_inv s1" and l1: "llm_calls (metrics s1) = llm_calls (metrics s)" by simp_all
  show ?case
  proof (cases "is_compression r")
    case True
    with Cons.prems(1) e have "s' = s1" by simp
    with i1 l1 show ?thesis by simp
  next
    case False
    with Cons.prems(1) e have
      p: "process_tool_calls E tcs (add_message (tool_message tc r) s1) = Inr (b, s')"
      by simp
    from Cons.IH [OF p] i1 l1 show ?thesis by (simp add: add_message_inv)
  qed
qed

lemma llm_step_inv:
  assumes "call_llm E s = Inr (resp, s1)" and "traj_inv s"
  shows "traj_inv (llm_snapshot i (add_message resp s1))
       \<and> llm_calls (metrics (llm_snapshot i (add_message resp s1))) = llm_calls (metrics s) + 1"
  using assms
  by (auto simp: call_llm_def Let_def llm_snapshot_def add_message_def traj_inv_def
      sorted_append list_all_iff split: sum.splits)

lemma run_step_inv:
  assumes "run_step E i s = Inr (x, s')" and "traj_inv s"
  shows "traj_inv s' \<and> llm_calls (metrics s') = llm_calls (metrics s) + 1
       \<and> (\<forall>r. x = Some r \<longrightarrow> md_metrics (task_metrics r) = metrics s')"
proof -
  from assms(1) obtain resp s1 where c: "call_llm E s = Inr (resp, s1)"
    by (auto simp: run_step_def split: sum.splits)
  define s2 where "s2 = llm_snapshot i (add_message resp s1)"
  from llm_step_inv [OF c assms(2), of i]
  have i2: "traj_inv s2" and l2: "llm_calls (metrics s2) = llm_calls (metrics s) + 1"
    by (simp_all add: s2_def)
  from assms(1) c consider
      r where "x = Some r" "s' = s2" "md_metrics (task_metrics r) = metrics s2"
    | b where "x = None" "process_tool_calls E (tool_calls resp) s2 = Inr (b, s')"
    | "x = None" "s' = add_message nudge s2"
    by (auto simp: run_step_def Let_def s2_def metrics_to_dict_def
        split: if_splits sum.splits prod.splits)
  then show ?thesis
  proof cases
    case 1
    with i2 l2 show ?thesis by simp
  next
    case 2
    with process_inv [OF 2(2) i2] l2 show ?thesis by simp
  next
    case 3
    with i2 l2 show ?thesis by (simp add: add_message_inv)
  qed
qed

lemma run_loop_inv:
  assumes "run_loop E i n s = Inr (r, s')" and "traj_inv s"
  shows "traj_inv s' \<and> md_metrics (task_metrics r) = metrics s'"
  using assms
proof (induction n arbitrary: i s)
  case 0
  then show ?case by (auto simp: max_steps_result_def metrics_to_dict_def)
next
  case (Suc n)
  from Suc.prems(1) obtain x s1 where st: "run_step E i s = Inr (x, s1)"
    by (auto split: sum.splits)
  from run_step_inv [OF st Suc.prems(2)]
  have i1: "traj_inv s1" and m: "\<forall>r. x = Some r \<longrightarrow> md_metrics (task_metrics r) = metrics s1"
    by simp_all
  show ?case
  proof (cases x)
    case None
    with Suc.prems(1) st have "run_loop E (Suc i) n s1 = Inr (r, s')" by simp
    from Suc.IH [OF this i1] show ?thesis .
  next
    case (Some r')
    with Suc.prems(1) st have "r = r'" "s' = s1" by simp_all
    with Some i1 m show ?thesis by simp
  qed
qed

lemma initial_inv: "traj_inv (initial task workspace)"
  by (simp add: initial_def reset_def add_message_def traj_inv_def)

lemma sublist_join_lines:
  assumes "c \<notin> set m" and "m \<noteq> []"
  shows "sublist m (join [c] xs) \<longleftrightarrow> (\<exists>x\<in>set xs. sublist m x)"
proof (induction "[c]" xs rule: join.induct)
  case 1
  from assms(2) show ?case by simp
next
  case (2 x)
  show ?case by simp
next
  case (3 x y ys)
  have "sublist m (join [c] (x # y # ys)) \<longleftrightarrow> sublist m (x @ c # join [c] (y # ys))"
    by simp
  also have "\<dots> \<longleftrightarrow> sublist m x \<or> sublist m (join [c] (y # ys))"
    using assms(1) by (rule sublist_across)
  finally show ?case using 3 by simp
qed

lemma prompt_no_marker: "\<not> sublist knowledge_marker (system_prompt ''/w'')"
proof -
  have n: "CHR 0x0A \<notin> set knowledge_marker" and e: "knowledge_marker \<noteq> []"
    by (simp_all add: knowledge_marker_def)
  show ?thesis
    unfolding system_prompt_def sublist_join_lines [OF n e]
    by (simp add: knowledge_marker_def sublist_Cons_right)
qed

end
